theory Spec2Isabelle
  imports Complex_Main "HOL-Library.AList" "HOL-Library.Multiset"
begin

section \<open>Exact decimals\<close>

text \<open>
  Modelled from the spec: the Decimal type of section 4.1. The matcher builds its prices
  and amounts with \<^verbatim>\<open>new Big(s)\<close> of the library big.js, which is a dependency and not
  part of the sources. The spec gives its contract: decimal values are carried exactly
  across parse, arithmetic and serialisation; \<^verbatim>\<open>parse\<close> accepts an optional sign, an
  integer part and an optional fractional part after a point, leading zeros allowed,
  trailing zeros kept internally; the comparisons are a total order on the values;
  \<^verbatim>\<open>to_string\<close> gives the minimal form, with no superfluous trailing zero and no trailing
  point; a malformed string is an error.

  A value is a mantissa and a scale: \<open>Big m k\<close> stands for \<open>m / 10 ^ k\<close>.
\<close>

datatype Big = Big (mant: int) (scale: nat)

definition big_val :: "Big \<Rightarrow> rat" where
  "big_val x = of_int (mant x) / 10 ^ scale x"

definition big_zero :: Big where
  "big_zero = Big 0 0"

text \<open>\<^verbatim>\<open>x.cmp(y)\<close>: -1, 0 or 1, on the values brought to a common scale.\<close>

definition big_cmp :: "Big \<Rightarrow> Big \<Rightarrow> int" where
  "big_cmp x y =
     (let a = mant x * 10 ^ scale y; b = mant y * 10 ^ scale x
      in if a < b then - 1 else if a = b then 0 else 1)"

definition big_eq :: "Big \<Rightarrow> Big \<Rightarrow> bool" where
  "big_eq x y = (big_cmp x y = 0)"

definition big_gt :: "Big \<Rightarrow> Big \<Rightarrow> bool" where
  "big_gt x y = (big_cmp x y > 0)"

definition big_gte :: "Big \<Rightarrow> Big \<Rightarrow> bool" where
  "big_gte x y = (big_cmp x y > - 1)"

definition big_lt :: "Big \<Rightarrow> Big \<Rightarrow> bool" where
  "big_lt x y = (big_cmp x y < 0)"

definition big_lte :: "Big \<Rightarrow> Big \<Rightarrow> bool" where
  "big_lte x y = (big_cmp x y < 1)"

definition big_minus :: "Big \<Rightarrow> Big \<Rightarrow> Big" where
  "big_minus x y =
     (let k = max (scale x) (scale y)
      in Big (mant x * 10 ^ (k - scale x) - mant y * 10 ^ (k - scale y)) k)"

definition big_plus :: "Big \<Rightarrow> Big \<Rightarrow> Big" where
  "big_plus x y =
     (let k = max (scale x) (scale y)
      in Big (mant x * 10 ^ (k - scale x) + mant y * 10 ^ (k - scale y)) k)"

subsection \<open>Parsing\<close>

definition is_digit :: "char \<Rightarrow> bool" where
  "is_digit c = (48 \<le> (of_char c :: nat) \<and> (of_char c :: nat) \<le> 57)"

definition digit_of :: "char \<Rightarrow> nat" where
  "digit_of c = of_char c - 48"

definition digits_val :: "string \<Rightarrow> nat" where
  "digits_val s = foldl (\<lambda>a c. 10 * a + digit_of c) 0 s"

definition strip_sign :: "string \<Rightarrow> bool \<times> string" where
  "strip_sign s =
     (case s of
        [] \<Rightarrow> (False, [])
      | c # r \<Rightarrow>
          if c = CHR ''-'' then (True, r)
          else if c = CHR ''+'' then (False, r)
          else (False, s))"

definition int_part :: "string \<Rightarrow> string" where
  "int_part r = takeWhile (\<lambda>c. c \<noteq> CHR ''.'') r"

definition frac_part :: "string \<Rightarrow> string" where
  "frac_part r = drop 1 (dropWhile (\<lambda>c. c \<noteq> CHR ''.'') r)"

definition big_parse :: "string \<Rightarrow> Big option" where
  "big_parse s =
     (let (neg, r) = strip_sign s; ip = int_part r; fp = frac_part r
      in if ip \<noteq> [] \<and> list_all is_digit ip \<and> list_all is_digit fp
         then Some (Big ((if neg then - 1 else 1) * int (digits_val (ip @ fp))) (length fp))
         else None)"

subsection \<open>Serialisation\<close>

fun strip_zeros :: "int \<Rightarrow> nat \<Rightarrow> int \<times> nat" where
  "strip_zeros m 0 = (m, 0)"
| "strip_zeros m (Suc k) = (if m mod 10 = 0 then strip_zeros (m div 10) k else (m, Suc k))"

definition digit_char :: "nat \<Rightarrow> char" where
  "digit_char d = char_of (48 + d)"

fun nat_digits :: "nat \<Rightarrow> string" where
  "nat_digits n = (if n < 10 then [digit_char n] else nat_digits (n div 10) @ [digit_char (n mod 10)])"

declare nat_digits.simps [simp del]

definition big_toString :: "Big \<Rightarrow> string" where
  "big_toString x =
     (let (m, k) = strip_zeros (mant x) (scale x);
          ds = nat_digits (nat \<bar>m\<bar>);
          ds' = replicate (Suc k - length ds) CHR ''0'' @ ds;
          ip = take (length ds' - k) ds';
          fp = drop (length ds' - k) ds';
          body = (if k = 0 then ip else ip @ CHR ''.'' # fp)
      in if m < 0 then CHR ''-'' # body else body)"

subsection \<open>The canonical form\<close>

text \<open>
  The canonical form of a decimal string, in the words of section 4.1: the minimal
  representation, with no superfluous trailing zeros and no trailing point. The integer
  part loses its leading zeros, down to one digit; the fractional part loses its trailing
  zeros, and the point goes with its last digit; the sign stays only in front of a negative
  value.
\<close>

definition strip_trailing :: "string \<Rightarrow> string" where
  "strip_trailing fp = rev (dropWhile (\<lambda>c. c = CHR ''0'') (rev fp))"



section \<open>The priority queue\<close>

text \<open>
  Modelled from the spec: the priority queue of section 4.2. The books keep their resting
  orders in \<^verbatim>\<open>Heap\<close> objects of the library heap-js, a dependency that is not part of the
  sources. The spec describes a binary heap over an array, ordered by a comparator that is
  given at construction: \<^verbatim>\<open>push\<close> appends and moves the new element up, \<^verbatim>\<open>peek\<close> reads
  position 0, \<^verbatim>\<open>pop\<close> moves the last element to position 0 and moves it down,
  \<^verbatim>\<open>remove(o)\<close> looks the element up by identity, puts the last element in its place and
  restores the order around it. The array order is what a snapshot shows (section 4.5).
  An element here is the address of an order, so identity is equality of addresses.
\<close>

type_synonym 'a comparator = "'a \<Rightarrow> 'a \<Rightarrow> int"

definition getParentIndexOf :: "nat \<Rightarrow> nat" where
  "getParentIndexOf i = (i - 1) div 2"

definition moveNode :: "'a list \<Rightarrow> nat \<Rightarrow> nat \<Rightarrow> 'a list" where
  "moveNode h j k = h[j := h ! k, k := h ! j]"

function sortNodeUp :: "'a comparator \<Rightarrow> 'a list \<Rightarrow> nat \<Rightarrow> 'a list" where
  "sortNodeUp cmp h i =
     (if 0 < i \<and> cmp (h ! getParentIndexOf i) (h ! i) > 0
      then sortNodeUp cmp (moveNode h i (getParentIndexOf i)) (getParentIndexOf i)
      else h)"
  by pat_completeness auto
termination
  by (relation "measure (\<lambda>(cmp, h, i). i)") (auto simp: getParentIndexOf_def)

declare sortNodeUp.simps [simp del]

definition bestChildIndex :: "'a comparator \<Rightarrow> 'a list \<Rightarrow> nat \<Rightarrow> nat" where
  "bestChildIndex cmp h i =
     (if 2 * i + 2 < length h \<and> cmp (h ! (2 * i + 2)) (h ! (2 * i + 1)) < 0
      then 2 * i + 2 else 2 * i + 1)"

function sortNodeDownLoop :: "'a comparator \<Rightarrow> 'a list \<Rightarrow> nat \<Rightarrow> 'a list" where
  "sortNodeDownLoop cmp h i =
     (let c = bestChildIndex cmp h i
      in if c < length h \<and> cmp (h ! i) (h ! c) > 0
         then sortNodeDownLoop cmp (moveNode h i c) c
         else h)"
  by pat_completeness auto
termination
  by (relation "measure (\<lambda>(cmp, h, i). length h - i)")
     (auto simp: bestChildIndex_def moveNode_def split: if_splits)

declare sortNodeDownLoop.simps [simp del]

definition sortNodeDown :: "'a comparator \<Rightarrow> 'a list \<Rightarrow> nat \<Rightarrow> 'a list" where
  "sortNodeDown cmp h i = (if i + 1 < length h then sortNodeDownLoop cmp h i else h)"

definition heap_push :: "'a comparator \<Rightarrow> 'a list \<Rightarrow> 'a \<Rightarrow> 'a list" where
  "heap_push cmp h x = sortNodeUp cmp (h @ [x]) (length h)"

definition heap_peek :: "'a list \<Rightarrow> 'a option" where
  "heap_peek h = (case h of [] \<Rightarrow> None | x # _ \<Rightarrow> Some x)"

definition heap_pop :: "'a comparator \<Rightarrow> 'a list \<Rightarrow> 'a list" where
  "heap_pop cmp h =
     (if h = [] then []
      else if butlast h = [] then []
      else sortNodeDown cmp ((butlast h)[0 := last h]) 0)"

fun findIndex :: "('a \<Rightarrow> bool) \<Rightarrow> 'a list \<Rightarrow> nat option" where
  "findIndex P [] = None"
| "findIndex P (x # xs) =
     (if P x then Some 0 else case findIndex P xs of None \<Rightarrow> None | Some n \<Rightarrow> Some (Suc n))"

definition heap_remove :: "'a comparator \<Rightarrow> 'a list \<Rightarrow> 'a \<Rightarrow> 'a list" where
  "heap_remove cmp h x =
     (case findIndex (\<lambda>el. el = x) h of
        None \<Rightarrow> h
      | Some idx \<Rightarrow>
          if idx = 0 then heap_pop cmp h
          else if idx = length h - 1 then butlast h
          else sortNodeDown cmp (sortNodeUp cmp ((butlast h)[idx := last h]) idx) idx)"

section \<open>Commands, orders and trades\<close>

datatype Side = BUY | SELL

datatype OpType = CREATE | DELETE

record RawOrder =
  type_op :: OpType
  account_id :: string
  amount :: string
  order_id :: string
  pair :: string
  limit_price :: string
  side :: Side

text \<open>
  A \<^verbatim>\<open>BookOrder\<close> object. The fields \<^verbatim>\<open>id\<close>, \<^verbatim>\<open>account\<close>, \<^verbatim>\<open>side\<close> and \<^verbatim>\<open>pair\<close> carry the
  prefix \<open>bo_\<close> here.
\<close>

record BookOrder =
  bo_id :: string
  bo_account :: string
  bo_side :: Side
  bo_pair :: string
  price :: Big
  remaining :: Big
  ts :: nat

text \<open>
  A \<^verbatim>\<open>Trade\<close>. Its field \<^verbatim>\<open>ts\<close> is the reading of the wall clock (\<^verbatim>\<open>Date.now()\<close>) when the
  trade is made; it comes from the environment, nothing in the matcher reads it, and it is
  left out of the record.
\<close>

record Trade =
  tr_pair :: string
  buyOrderId :: string
  sellOrderId :: string
  tr_price :: string
  tr_amount :: string

text \<open>One entry of a snapshot, and the snapshot of a book (the type \<^verbatim>\<open>Order\<close>).\<close>

record Entry =
  en_id :: string
  en_account :: string
  en_price :: string
  en_remaining :: string

record Order =
  or_pair :: string
  or_bids :: "Entry list"
  or_asks :: "Entry list"

datatype error = InvalidNumber

section \<open>The order book\<close>

text \<open>
  \<^verbatim>\<open>class OrderBook\<close>. The heaps and the index hold references to \<^verbatim>\<open>BookOrder\<close> objects, and
  \<^verbatim>\<open>match\<close> assigns to the field \<^verbatim>\<open>remaining\<close> of objects that the heaps and the index share.
  So the model has a store: \<open>objs\<close> is the list of the objects this book has created, an
  address is a position in it, and \<open>bids\<close>, \<open>asks\<close> and \<open>idIndex\<close> hold addresses. An object
  is created by \<^verbatim>\<open>process\<close> only, and stays in the store when nothing refers to it any more.
\<close>

record OrderBook =
  ob_pair :: string
  bids :: "nat list"
  asks :: "nat list"
  idIndex :: "string \<rightharpoonup> nat"
  seq :: nat
  trades :: "Trade list"
  objs :: "BookOrder list"

text \<open>The comparators of the constructor: they read the objects at the two addresses.\<close>

definition bids_compare :: "BookOrder list \<Rightarrow> nat comparator" where
  "bids_compare os a b =
     (if big_eq (price (os ! a)) (price (os ! b))
      then int (ts (os ! a)) - int (ts (os ! b))
      else big_cmp (price (os ! b)) (price (os ! a)))"

definition asks_compare :: "BookOrder list \<Rightarrow> nat comparator" where
  "asks_compare os a b =
     (if big_eq (price (os ! a)) (price (os ! b))
      then int (ts (os ! a)) - int (ts (os ! b))
      else big_cmp (price (os ! a)) (price (os ! b)))"

definition newOrderBook :: "string \<Rightarrow> OrderBook" where
  "newOrderBook p =
     \<lparr>ob_pair = p, bids = [], asks = [], idIndex = Map.empty, seq = 0, trades = [], objs = []\<rparr>"

definition add :: "nat \<Rightarrow> OrderBook \<Rightarrow> OrderBook" where
  "add i b =
     (let b1 = b\<lparr>idIndex := (idIndex b)(bo_id (objs b ! i) \<mapsto> i)\<rparr>
      in if bo_side (objs b1 ! i) = BUY
         then b1\<lparr>bids := heap_push (bids_compare (objs b1)) (bids b1) i\<rparr>
         else b1\<lparr>asks := heap_push (asks_compare (objs b1)) (asks b1) i\<rparr>)"

definition remove_order :: "nat \<Rightarrow> OrderBook \<Rightarrow> OrderBook" where
  "remove_order i b =
     (let b1 = (if bo_side (objs b ! i) = BUY
                then b\<lparr>bids := heap_remove (bids_compare (objs b)) (bids b) i\<rparr>
                else b\<lparr>asks := heap_remove (asks_compare (objs b)) (asks b) i\<rparr>)
      in b1\<lparr>idIndex := (idIndex b1)(bo_id (objs b1 ! i) := None)\<rparr>)"

text \<open>
  The loop of \<^verbatim>\<open>match\<close>. \<open>bookSide\<close> is the heap opposite to the incoming order at address
  \<open>i\<close>. \<open>match_next\<close> is the loop test with the \<^verbatim>\<open>break\<close>: the address of the best resting
  order when the body is to run, \<open>None\<close> when the loop is left. \<open>match_step\<close> is the body.
\<close>

definition bookSide :: "nat \<Rightarrow> OrderBook \<Rightarrow> nat list" where
  "bookSide i b = (if bo_side (objs b ! i) = BUY then asks b else bids b)"

definition priceOK :: "nat \<Rightarrow> nat \<Rightarrow> OrderBook \<Rightarrow> bool" where
  "priceOK i best b =
     (if bo_side (objs b ! i) = BUY
      then big_gte (price (objs b ! i)) (price (objs b ! best))
      else big_lte (price (objs b ! i)) (price (objs b ! best)))"

definition match_next :: "nat \<Rightarrow> OrderBook \<Rightarrow> nat option" where
  "match_next i b =
     (if big_gt (remaining (objs b ! i)) big_zero \<and> length (bookSide i b) \<noteq> 0
      then case heap_peek (bookSide i b) of
             None \<Rightarrow> None
           | Some best \<Rightarrow> if priceOK i best b then Some best else None
      else None)"

definition tradeQty :: "nat \<Rightarrow> nat \<Rightarrow> OrderBook \<Rightarrow> Big" where
  "tradeQty i best b =
     (if big_lt (remaining (objs b ! i)) (remaining (objs b ! best))
      then remaining (objs b ! i)
      else remaining (objs b ! best))"

definition make_trade :: "nat \<Rightarrow> nat \<Rightarrow> OrderBook \<Rightarrow> Trade" where
  "make_trade i best b =
     (let isBuy = (bo_side (objs b ! i) = BUY)
      in \<lparr>tr_pair = ob_pair b,
          buyOrderId = (if isBuy then bo_id (objs b ! i) else bo_id (objs b ! best)),
          sellOrderId = (if isBuy then bo_id (objs b ! best) else bo_id (objs b ! i)),
          tr_price = big_toString (price (objs b ! best)),
          tr_amount = big_toString (tradeQty i best b)\<rparr>)"

definition set_remaining :: "nat \<Rightarrow> Big \<Rightarrow> OrderBook \<Rightarrow> OrderBook" where
  "set_remaining i v b = b\<lparr>objs := (objs b)[i := (objs b ! i)\<lparr>remaining := v\<rparr>]\<rparr>"

definition match_step :: "nat \<Rightarrow> nat \<Rightarrow> OrderBook \<Rightarrow> OrderBook" where
  "match_step i best b =
     (let q = tradeQty i best b;
          b1 = b\<lparr>trades := trades b @ [make_trade i best b]\<rparr>;
          b2 = set_remaining i (big_minus (remaining (objs b1 ! i)) q) b1;
          b3 = set_remaining best (big_minus (remaining (objs b2 ! best)) q) b2
      in if big_eq (remaining (objs b3 ! best)) big_zero then remove_order best b3 else b3)"

partial_function (option) match :: "nat \<Rightarrow> OrderBook \<Rightarrow> OrderBook option" where
  "match i b =
     (case match_next i b of
        None \<Rightarrow> Some b
      | Some best \<Rightarrow> match i (match_step i best b))"

declare match.simps [code]

text \<open>
  \<^verbatim>\<open>process\<close>. A string that \<^verbatim>\<open>new Big\<close> rejects raises before \<^verbatim>\<open>seq\<close> is read; the result is
  then \<open>Inl InvalidNumber\<close>. The outer \<open>None\<close> stands for a \<^verbatim>\<open>match\<close> that does not return.
  \<open>new_order\<close> is the object literal, \<open>create\<close> the rest of the CREATE branch: the object
  gets the next address, is matched, and is added when something of it remains.
\<close>

definition new_order :: "RawOrder \<Rightarrow> Big \<Rightarrow> Big \<Rightarrow> nat \<Rightarrow> BookOrder" where
  "new_order raw p a n =
     \<lparr>bo_id = order_id raw, bo_account = account_id raw, bo_side = side raw,
      bo_pair = pair raw, price = p, remaining = a, ts = n\<rparr>"

definition create :: "BookOrder \<Rightarrow> OrderBook \<Rightarrow> OrderBook option" where
  "create order b =
     (let i = length (objs b);
          b1 = b\<lparr>seq := seq b + 1, objs := objs b @ [order]\<rparr>
      in (case match i b1 of
            None \<Rightarrow> None
          | Some b2 \<Rightarrow>
              Some (if big_gt (remaining (objs b2 ! i)) big_zero then add i b2 else b2)))"

definition process :: "RawOrder \<Rightarrow> OrderBook \<Rightarrow> (error + OrderBook) option" where
  "process raw b =
     (if type_op raw = DELETE
      then (case idIndex b (order_id raw) of
              Some found \<Rightarrow> Some (Inr (remove_order found b))
            | None \<Rightarrow> Some (Inr b))
      else (case big_parse (limit_price raw) of
              None \<Rightarrow> Some (Inl InvalidNumber)
            | Some p \<Rightarrow>
                (case big_parse (amount raw) of
                   None \<Rightarrow> Some (Inl InvalidNumber)
                 | Some a \<Rightarrow> map_option Inr (create (new_order raw p a (seq b)) b))))"

definition entry_of :: "BookOrder \<Rightarrow> Entry" where
  "entry_of o' =
     \<lparr>en_id = bo_id o', en_account = bo_account o',
      en_price = big_toString (price o'), en_remaining = big_toString (remaining o')\<rparr>"

definition normalize_book :: "OrderBook \<Rightarrow> Order" where
  "normalize_book b =
     \<lparr>or_pair = ob_pair b,
      or_bids = map (\<lambda>r. entry_of (objs b ! r)) (bids b),
      or_asks = map (\<lambda>r. entry_of (objs b ! r)) (asks b)\<rparr>"

section \<open>The engine\<close>

text \<open>
  \<^verbatim>\<open>class MatcherEngine\<close>. \<^verbatim>\<open>books\<close> is a \<^verbatim>\<open>Map\<close>, which keeps its keys in the order of their
  first insertion: an association list with a new pair added at the end.
\<close>

record MatcherEngine =
  books :: "(string \<times> OrderBook) list"
  eng_trades :: "Trade list"

definition newMatcherEngine :: MatcherEngine where
  "newMatcherEngine = \<lparr>books = [], eng_trades = []\<rparr>"

definition bookFor :: "string \<Rightarrow> MatcherEngine \<Rightarrow> OrderBook \<times> MatcherEngine" where
  "bookFor p e =
     (case map_of (books e) p of
        Some book \<Rightarrow> (book, e)
      | None \<Rightarrow> (newOrderBook p, e\<lparr>books := books e @ [(p, newOrderBook p)]\<rparr>))"

definition ingest :: "RawOrder \<Rightarrow> MatcherEngine \<Rightarrow> (error + MatcherEngine) option" where
  "ingest raw e =
     (let (book, e1) = bookFor (pair raw) e
      in case process raw book of
           None \<Rightarrow> None
         | Some (Inl err) \<Rightarrow> Some (Inl err)
         | Some (Inr book') \<Rightarrow> Some (Inr (e1\<lparr>books := AList.update (pair raw) book' (books e1)\<rparr>)))"

fun ingest_all :: "RawOrder list \<Rightarrow> MatcherEngine \<Rightarrow> (error + MatcherEngine) option" where
  "ingest_all [] e = Some (Inr e)"
| "ingest_all (raw # raws) e =
     (case ingest raw e of
        None \<Rightarrow> None
      | Some (Inl err) \<Rightarrow> Some (Inl err)
      | Some (Inr e') \<Rightarrow> ingest_all raws e')"

definition finish :: "MatcherEngine \<Rightarrow> Order list \<times> Trade list" where
  "finish e =
     (map (\<lambda>(p, b). normalize_book b) (books e), concat (map (\<lambda>(p, b). trades b) (books e)))"

section \<open>Well-formed heaps\<close>

text \<open>
  A comparator is sound when its sign is antisymmetric and \<open>cmp a b \<le> 0\<close> is transitive;
  the array is a heap when no element precedes its parent.
\<close>

definition good_cmp :: "'a comparator \<Rightarrow> bool" where
  "good_cmp cmp = ((\<forall>a b. (cmp a b < 0) = (cmp b a > 0)) \<and>
                  (\<forall>a b c. cmp a b \<le> 0 \<longrightarrow> cmp b c \<le> 0 \<longrightarrow> cmp a c \<le> 0))"

definition heap_ok :: "'a comparator \<Rightarrow> 'a list \<Rightarrow> bool" where
  "heap_ok cmp h = (\<forall>i<length h. 0 < i \<longrightarrow> cmp (h ! getParentIndexOf i) (h ! i) \<le> 0)"

definition up_inv :: "'a comparator \<Rightarrow> 'a list \<Rightarrow> nat \<Rightarrow> bool" where
  "up_inv cmp h i =
     ((\<forall>j<length h. 0 < j \<longrightarrow> j \<noteq> i \<longrightarrow> cmp (h ! getParentIndexOf j) (h ! j) \<le> 0) \<and>
      (\<forall>j<length h. 0 < j \<longrightarrow> getParentIndexOf j = i \<longrightarrow> 0 < i \<longrightarrow>
          cmp (h ! getParentIndexOf i) (h ! j) \<le> 0))"

definition down_inv :: "'a comparator \<Rightarrow> 'a list \<Rightarrow> nat \<Rightarrow> bool" where
  "down_inv cmp h i =
     ((\<forall>j<length h. 0 < j \<longrightarrow> getParentIndexOf j \<noteq> i \<longrightarrow> cmp (h ! getParentIndexOf j) (h ! j) \<le> 0) \<and>
      (\<forall>j<length h. 0 < j \<longrightarrow> getParentIndexOf j = i \<longrightarrow> 0 < i \<longrightarrow>
          cmp (h ! getParentIndexOf i) (h ! j) \<le> 0))"

section \<open>Well-formed books\<close>

text \<open>
  \<open>process_all\<close> is the sequence of calls of \<^verbatim>\<open>process\<close> that one book receives; the first
  error ends the run, as the exception does.
\<close>

fun process_all :: "RawOrder list \<Rightarrow> OrderBook \<Rightarrow> (error + OrderBook) option" where
  "process_all [] b = Some (Inr b)"
| "process_all (raw # raws) b =
     (case process raw b of
        None \<Rightarrow> None
      | Some (Inl err) \<Rightarrow> Some (Inl err)
      | Some (Inr b') \<Rightarrow> process_all raws b')"

text \<open>
  The addresses that the DELETE commands of a run remove from the book: a DELETE removes
  the order that \<^verbatim>\<open>idIndex\<close> holds for its id, if there is one.
\<close>

fun deleted :: "RawOrder list \<Rightarrow> OrderBook \<Rightarrow> nat list" where
  "deleted [] b = []"
| "deleted (raw # raws) b =
     (case process raw b of
        Some (Inr b') \<Rightarrow>
          (if type_op raw = DELETE
           then (case idIndex b (order_id raw) of Some found \<Rightarrow> [found] | None \<Rightarrow> [])
           else []) @ deleted raws b'
      | _ \<Rightarrow> [])"

declare deleted.simps(2) [simp del]

text \<open>The addresses of the resting orders.\<close>

definition resting :: "OrderBook \<Rightarrow> nat set" where
  "resting b = set (bids b) \<union> set (asks b)"

text \<open>
  What \<^verbatim>\<open>match\<close> relies on: the incoming order is an object of the store, and the heap
  opposite to it holds objects of the store, of the other side, none of them the incoming
  order itself.
\<close>

definition match_wf :: "nat \<Rightarrow> OrderBook \<Rightarrow> bool" where
  "match_wf i b =
     (i < length (objs b) \<and>
      (\<forall>r\<in>set (bookSide i b).
         r < length (objs b) \<and> r \<noteq> i \<and> bo_side (objs b ! r) \<noteq> bo_side (objs b ! i)))"

text \<open>
  The store after the two assignments to \<^verbatim>\<open>remaining\<close> in the body of the loop, when the
  incoming order and the best resting order are two objects.
\<close>

definition step_objs :: "nat \<Rightarrow> nat \<Rightarrow> OrderBook \<Rightarrow> BookOrder list" where
  "step_objs i best b =
     (objs b)
       [i := (objs b ! i)\<lparr>remaining := big_minus (remaining (objs b ! i)) (tradeQty i best b)\<rparr>,
        best := (objs b ! best)
                  \<lparr>remaining := big_minus (remaining (objs b ! best)) (tradeQty i best b)\<rparr>]"

text \<open>The state after at most \<open>n\<close> iterations of the loop of \<^verbatim>\<open>match\<close>.\<close>

fun match_steps :: "nat \<Rightarrow> nat \<Rightarrow> OrderBook \<Rightarrow> OrderBook" where
  "match_steps 0 i b = b"
| "match_steps (Suc n) i b =
     (case match_next i b of
        None \<Rightarrow> b
      | Some best \<Rightarrow> match_steps n i (match_step i best b))"

text \<open>
  The invariant of a book between two commands, in three parts. The structure: no address
  twice in a heap; bids are buy orders and asks are sell orders of the store; both arrays
  are heaps for their comparators; the index points to resting orders under their own id;
  no bid reaches the price of an ask. The quantities: a resting order has a positive
  remaining quantity. The sequence: the object at address \<open>r\<close> has sequence number \<open>r\<close>,
  and \<^verbatim>\<open>seq\<close> counts the objects.
\<close>

definition inv_struct :: "OrderBook \<Rightarrow> bool" where
  "inv_struct b =
     (distinct (bids b) \<and> distinct (asks b) \<and>
      (\<forall>r\<in>set (bids b). r < length (objs b) \<and> bo_side (objs b ! r) = BUY) \<and>
      (\<forall>r\<in>set (asks b). r < length (objs b) \<and> bo_side (objs b ! r) = SELL) \<and>
      heap_ok (bids_compare (objs b)) (bids b) \<and>
      heap_ok (asks_compare (objs b)) (asks b) \<and>
      (\<forall>k r. idIndex b k = Some r \<longrightarrow> r \<in> resting b \<and> bo_id (objs b ! r) = k) \<and>
      (\<forall>x\<in>set (bids b). \<forall>y\<in>set (asks b).
         big_lt (price (objs b ! x)) (price (objs b ! y))))"

definition inv_pos :: "OrderBook \<Rightarrow> bool" where
  "inv_pos b = (\<forall>r\<in>resting b. big_gt (remaining (objs b ! r)) big_zero)"

definition inv_ts :: "OrderBook \<Rightarrow> bool" where
  "inv_ts b = (length (objs b) = seq b \<and> (\<forall>r<length (objs b). ts (objs b ! r) = r))"

definition book_inv :: "OrderBook \<Rightarrow> bool" where
  "book_inv b = (inv_struct b \<and> inv_pos b \<and> inv_ts b)"

text \<open>The incoming order during \<^verbatim>\<open>match\<close>: an object of the store that is not resting.\<close>

definition fresh :: "nat \<Rightarrow> OrderBook \<Rightarrow> bool" where
  "fresh i b = (i < length (objs b) \<and> i \<notin> resting b)"

text \<open>
  The commands of a stream that go to the book of the pair \<open>p\<close>, and the book the engine
  works on for \<open>p\<close>: the one in \<^verbatim>\<open>books\<close>, or a new one, as in \<^verbatim>\<open>bookFor\<close>.
\<close>

definition for_pair :: "string \<Rightarrow> RawOrder list \<Rightarrow> RawOrder list" where
  "for_pair p raws = filter (\<lambda>raw. pair raw = p) raws"

definition book_of :: "MatcherEngine \<Rightarrow> string \<Rightarrow> OrderBook" where
  "book_of e p = (case map_of (books e) p of Some b \<Rightarrow> b | None \<Rightarrow> newOrderBook p)"

definition eng_inv :: "MatcherEngine \<Rightarrow> bool" where
  "eng_inv e = (\<forall>p. book_inv (book_of e p))"

section \<open>Histories\<close>

text \<open>
  The CREATE commands of a stream, in order. Two objects are the same order when they
  differ at most in \<^verbatim>\<open>remaining\<close>, the only field the program assigns to.
\<close>

definition creates :: "RawOrder list \<Rightarrow> RawOrder list" where
  "creates raws = filter (\<lambda>raw. type_op raw = CREATE) raws"

definition same_order :: "BookOrder \<Rightarrow> BookOrder \<Rightarrow> bool" where
  "same_order x y =
     (bo_id x = bo_id y \<and> bo_account x = bo_account y \<and> bo_side x = bo_side y \<and>
      bo_pair x = bo_pair y \<and> price x = price y \<and> ts x = ts y)"

text \<open>
  The trades of one CREATE, as a list of fills: pairs of the address of a resting order
  and a quantity. \<open>fill_trade b k (m, q)\<close> is the trade of quantity \<open>q\<close> between the incoming
  order \<open>k\<close> and the resting order \<open>m\<close>; \<open>filled fills k r\<close> is what the fills take from
  order \<open>r\<close>; \<open>fills_inv b1 i fills b'\<close> relates the book \<open>b1\<close> in which the incoming order
  \<open>i\<close> has just been created to a later book \<open>b'\<close> of the same command.
\<close>

definition fill_trade :: "OrderBook \<Rightarrow> nat \<Rightarrow> nat \<times> Big \<Rightarrow> Trade" where
  "fill_trade b k mq =
     \<lparr>tr_pair = ob_pair b,
      buyOrderId = (if bo_side (objs b ! k) = BUY then bo_id (objs b ! k)
                    else bo_id (objs b ! fst mq)),
      sellOrderId = (if bo_side (objs b ! k) = BUY then bo_id (objs b ! fst mq)
                     else bo_id (objs b ! k)),
      tr_price = big_toString (price (objs b ! fst mq)),
      tr_amount = big_toString (snd mq)\<rparr>"

definition filled :: "(nat \<times> Big) list \<Rightarrow> nat \<Rightarrow> nat \<Rightarrow> rat" where
  "filled fills k r = sum_list (map (\<lambda>mq. if fst mq = r \<or> r = k then big_val (snd mq) else 0) fills)"

definition fills_inv :: "OrderBook \<Rightarrow> nat \<Rightarrow> (nat \<times> Big) list \<Rightarrow> OrderBook \<Rightarrow> bool" where
  "fills_inv b1 i fills b' =
     (length (objs b') = Suc i \<and> ob_pair b' = ob_pair b1 \<and> seq b' = seq b1 \<and>
      (\<forall>r\<le>i. same_order (objs b' ! r) (objs b1 ! r)) \<and>
      trades b' = trades b1 @ map (fill_trade b1 i) fills \<and>
      (\<forall>mq\<in>set fills. fst mq < i \<and> bo_side (objs b1 ! fst mq) \<noteq> bo_side (objs b1 ! i)) \<and>
      (\<forall>r\<le>i. big_val (remaining (objs b' ! r)) =
                big_val (remaining (objs b1 ! r)) - filled fills i r))"

text \<open>
  A trade is between two orders of the book, of opposite sides, and carries the price of
  the older one; the objects of a book are the CREATE commands it has received.
\<close>

definition ok_trade :: "OrderBook \<Rightarrow> Trade \<Rightarrow> bool" where
  "ok_trade b t =
     (\<exists>k<length (objs b). \<exists>m<k.
        tr_pair t = ob_pair b \<and>
        bo_side (objs b ! m) \<noteq> bo_side (objs b ! k) \<and>
        tr_price t = big_toString (price (objs b ! m)) \<and>
        buyOrderId t = bo_id (objs b ! (if bo_side (objs b ! k) = BUY then k else m)) \<and>
        sellOrderId t = bo_id (objs b ! (if bo_side (objs b ! k) = BUY then m else k)))"

definition hist_inv :: "RawOrder list \<Rightarrow> OrderBook \<Rightarrow> bool" where
  "hist_inv raws b =
     (length (objs b) = length (creates raws) \<and>
      (\<forall>r<length (objs b).
         bo_id (objs b ! r) = order_id (creates raws ! r) \<and>
         bo_side (objs b ! r) = side (creates raws ! r) \<and>
         big_parse (limit_price (creates raws ! r)) = Some (price (objs b ! r))) \<and>
      (\<forall>t\<in>set (trades b). ok_trade b t))"

text \<open>
  What a CREATE leaves of the book \<open>b\<close> it started from, in a state \<open>b'\<close> of its loop, when
  the incoming order \<open>i\<close> was created with the quantity \<open>am\<close>: no order starts to rest; a
  resting order rests or has nothing left; an order that was not resting is untouched; the
  incoming order has its first quantity or a non-negative one.
\<close>

definition keeps :: "OrderBook \<Rightarrow> Big \<Rightarrow> nat \<Rightarrow> OrderBook \<Rightarrow> bool" where
  "keeps b am i b' =
     (length (objs b') = Suc i \<and> resting b' \<subseteq> resting b \<and>
      (\<forall>r\<in>resting b. r \<in> resting b' \<or> big_eq (remaining (objs b' ! r)) big_zero) \<and>
      (\<forall>r<i. r \<notin> resting b \<longrightarrow> remaining (objs b' ! r) = remaining (objs b ! r)) \<and>
      (remaining (objs b' ! i) = am \<or> 0 \<le> big_val (remaining (objs b' ! i))))"

text \<open>
  Every order of the book, between two commands of a run whose CREATE commands are \<open>cs\<close> and
  whose DELETE commands have removed \<open>ds\<close>: it rests, or it has been removed, or nothing is
  left of it, or its amount was negative.
\<close>

definition settled :: "RawOrder list \<Rightarrow> nat list \<Rightarrow> OrderBook \<Rightarrow> bool" where
  "settled cs ds b =
     (\<forall>r<length (objs b).
        r \<in> resting b \<or> r \<in> set ds \<or> big_eq (remaining (objs b ! r)) big_zero \<or>
        (\<exists>q. big_parse (amount (cs ! r)) = Some q \<and> big_lt q big_zero))"

text \<open>
  The quantity of a trade is the value of its amount string. A trade of the pair \<open>p\<close> names
  the id \<open>k\<close> when it carries it as \<^verbatim>\<open>buyOrderId\<close> or as \<^verbatim>\<open>sellOrderId\<close>; \<open>traded p k trs\<close> is
  the sum of the quantities of these trades.
\<close>

definition trade_qty :: "Trade \<Rightarrow> rat" where
  "trade_qty t = (case big_parse (tr_amount t) of Some q \<Rightarrow> big_val q | None \<Rightarrow> 0)"

definition participates :: "string \<Rightarrow> string \<Rightarrow> Trade \<Rightarrow> bool" where
  "participates p k t = (tr_pair t = p \<and> (buyOrderId t = k \<or> sellOrderId t = k))"

definition traded :: "string \<Rightarrow> string \<Rightarrow> Trade list \<Rightarrow> rat" where
  "traded p k trs = sum_list (map trade_qty (filter (participates p k) trs))"



section \<open>Sample states\<close>

text \<open>
  A book with one resting sell order (address 0: 0.5 at 100) and a buy order that has just
  been created and is not resting yet (address 1: 2.0 at 101).
\<close>

definition ex_order :: "string \<Rightarrow> Side \<Rightarrow> Big \<Rightarrow> Big \<Rightarrow> nat \<Rightarrow> BookOrder" where
  "ex_order i s p a n =
     \<lparr>bo_id = i, bo_account = ''1'', bo_side = s, bo_pair = ''BTC/USDC'',
      price = p, remaining = a, ts = n\<rparr>"

definition ex_book :: OrderBook where
  "ex_book =
     \<lparr>ob_pair = ''BTC/USDC'', bids = [], asks = [0], idIndex = [''1'' \<mapsto> 0], seq = 2,
      trades = [],
      objs = [ex_order ''1'' SELL (Big 100 0) (Big 5 1) 0,
              ex_order ''2'' BUY (Big 101 0) (Big 20 1) 1]\<rparr>"

text \<open>
  A stream of three commands on one pair: a sell order of 0.5 at 100, a buy order of 1 at
  99, which rests, and a buy order of 0.2 at 101, which trades with the sell order at 100.
\<close>

definition ex_cmd :: "OpType \<Rightarrow> Side \<Rightarrow> string \<Rightarrow> string \<Rightarrow> string \<Rightarrow> RawOrder" where
  "ex_cmd op s i p a =
     \<lparr>type_op = op, account_id = ''1'', amount = a, order_id = i, pair = ''BTC/USDC'',
      limit_price = p, side = s\<rparr>"

definition ex_stream :: "RawOrder list" where
  "ex_stream =
     [ex_cmd CREATE SELL ''1'' ''100'' ''0.5'',
      ex_cmd CREATE BUY ''2'' ''99'' ''1'',
      ex_cmd CREATE BUY ''3'' ''101.0'' ''0.20'']"

text \<open>The book after the first command of the stream: the sell order rests.\<close>

definition ex_rest :: OrderBook where
  "ex_rest =
     \<lparr>ob_pair = ''BTC/USDC'', bids = [], asks = [0], idIndex = [''1'' \<mapsto> 0], seq = 1,
      trades = [], objs = [ex_order ''1'' SELL (Big 100 0) (Big 5 1) 0]\<rparr>"

text \<open>
  Two sell orders of 0.5 at 100, and then a buy order of 1 at 100, which trades with both,
  the older one first.
\<close>

definition ex_fifo_pre :: "RawOrder list" where
  "ex_fifo_pre =
     [ex_cmd CREATE SELL ''1'' ''100'' ''0.5'',
      ex_cmd CREATE SELL ''2'' ''100'' ''0.5'']"

definition ex_fifo_cmd :: RawOrder where
  "ex_fifo_cmd = ex_cmd CREATE BUY ''3'' ''100'' ''1''"

text \<open>
  A buy order with a negative amount, a second buy order at the same price, and a sell
  order that crosses them.
\<close>

definition ex_neg :: "RawOrder list" where
  "ex_neg =
     [ex_cmd CREATE BUY ''1'' ''100'' ''-1'',
      ex_cmd CREATE BUY ''2'' ''100'' ''1'',
      ex_cmd CREATE SELL ''3'' ''100'' ''1'']"


section \<open>The priority queue keeps the heap order\<close>

lemma cmp_trans: "good_cmp cmp \<Longrightarrow> cmp a b \<le> 0 \<Longrightarrow> cmp b c \<le> 0 \<Longrightarrow> cmp a c \<le> 0"
  unfolding good_cmp_def by blast

lemma cmp_gt_le: "good_cmp cmp \<Longrightarrow> cmp a b > 0 \<Longrightarrow> cmp b a \<le> 0"
  unfolding good_cmp_def by (metis less_le)

lemma cmp_nlt_le: "good_cmp cmp \<Longrightarrow> \<not> cmp a b < 0 \<Longrightarrow> cmp b a \<le> 0"
  unfolding good_cmp_def by (metis not_le)

lemma cmp_refl: "good_cmp cmp \<Longrightarrow> cmp a a \<le> 0"
  unfolding good_cmp_def by (metis not_le less_asym)

lemma par_less: "0 < i \<Longrightarrow> getParentIndexOf i < i"
  by (simp add: getParentIndexOf_def)

lemma par_child: "0 < j \<Longrightarrow> getParentIndexOf j = i \<Longrightarrow> j = 2 * i + 1 \<or> j = 2 * i + 2"
  unfolding getParentIndexOf_def by presburger

lemma par_left: "getParentIndexOf (2 * i + 1) = i"
  unfolding getParentIndexOf_def by simp

lemma par_right: "getParentIndexOf (2 * i + 2) = i"
  unfolding getParentIndexOf_def by simp

lemma moveNode_length [simp]: "length (moveNode h a b) = length h"
  by (simp add: moveNode_def)

lemma moveNode_nth:
  "a < length h \<Longrightarrow> b < length h \<Longrightarrow> j < length h \<Longrightarrow>
   moveNode h a b ! j = (if j = b then h ! a else if j = a then h ! b else h ! j)"
  by (simp add: moveNode_def nth_list_update)

lemma moveNode_mset: "a < length h \<Longrightarrow> b < length h \<Longrightarrow> mset (moveNode h a b) = mset h"
  unfolding moveNode_def by (simp add: mset_swap)

lemma sortNodeUp_stop:
  "\<not> (0 < i \<and> cmp (h ! getParentIndexOf i) (h ! i) > 0) \<Longrightarrow> sortNodeUp cmp h i = h"
  by (subst sortNodeUp.simps) auto

lemma sortNodeUp_go:
  "0 < i \<Longrightarrow> cmp (h ! getParentIndexOf i) (h ! i) > 0 \<Longrightarrow>
   sortNodeUp cmp h i = sortNodeUp cmp (moveNode h i (getParentIndexOf i)) (getParentIndexOf i)"
  by (subst sortNodeUp.simps) simp

lemma sortNodeDownLoop_stop:
  "\<not> (bestChildIndex cmp h i < length h \<and> cmp (h ! i) (h ! bestChildIndex cmp h i) > 0) \<Longrightarrow>
   sortNodeDownLoop cmp h i = h"
  by (subst sortNodeDownLoop.simps) (auto simp: Let_def)

lemma sortNodeDownLoop_go:
  "bestChildIndex cmp h i < length h \<Longrightarrow> cmp (h ! i) (h ! bestChildIndex cmp h i) > 0 \<Longrightarrow>
   sortNodeDownLoop cmp h i =
   sortNodeDownLoop cmp (moveNode h i (bestChildIndex cmp h i)) (bestChildIndex cmp h i)"
  by (subst sortNodeDownLoop.simps) (simp add: Let_def)

lemma sortNodeUp_length [simp]: "length (sortNodeUp cmp h i) = length h"
proof (induction cmp h i rule: sortNodeUp.induct)
  case (1 cmp h i)
  show ?case
  proof (cases "0 < i \<and> cmp (h ! getParentIndexOf i) (h ! i) > 0")
    case True
    with "1.IH" show ?thesis by (simp add: sortNodeUp_go)
  next
    case False
    then show ?thesis by (simp add: sortNodeUp_stop)
  qed
qed

lemma sortNodeUp_mset: "i < length h \<Longrightarrow> mset (sortNodeUp cmp h i) = mset h"
proof (induction cmp h i rule: sortNodeUp.induct)
  case (1 cmp h i)
  show ?case
  proof (cases "0 < i \<and> cmp (h ! getParentIndexOf i) (h ! i) > 0")
    case True
    then have p: "getParentIndexOf i < length h" using par_less[of i] "1.prems" by simp
    from True p "1.prems" "1.IH" show ?thesis
      by (simp add: sortNodeUp_go moveNode_mset)
  next
    case False
    then show ?thesis by (simp add: sortNodeUp_stop)
  qed
qed

lemma sortNodeDownLoop_length [simp]: "length (sortNodeDownLoop cmp h i) = length h"
proof (induction cmp h i rule: sortNodeDownLoop.induct)
  case (1 cmp h i)
  let ?c = "bestChildIndex cmp h i"
  show ?case
  proof (cases "?c < length h \<and> cmp (h ! i) (h ! ?c) > 0")
    case True
    with "1.IH"[of ?c] show ?thesis by (simp add: sortNodeDownLoop_go)
  next
    case False
    then show ?thesis by (simp add: sortNodeDownLoop_stop)
  qed
qed

lemma sortNodeDownLoop_mset: "i < length h \<Longrightarrow> mset (sortNodeDownLoop cmp h i) = mset h"
proof (induction cmp h i rule: sortNodeDownLoop.induct)
  case (1 cmp h i)
  let ?c = "bestChildIndex cmp h i"
  show ?case
  proof (cases "?c < length h \<and> cmp (h ! i) (h ! ?c) > 0")
    case True
    with "1.prems" "1.IH"[of ?c] show ?thesis
      by (simp add: sortNodeDownLoop_go moveNode_mset)
  next
    case False
    then show ?thesis by (simp add: sortNodeDownLoop_stop)
  qed
qed

lemma sortNodeDown_length [simp]: "length (sortNodeDown cmp h i) = length h"
  by (simp add: sortNodeDown_def)

lemma sortNodeDown_mset: "i < length h \<Longrightarrow> mset (sortNodeDown cmp h i) = mset h"
  by (simp add: sortNodeDown_def sortNodeDownLoop_mset)

lemma sortNodeUp_heap:
  "good_cmp cmp \<Longrightarrow> i < length h \<Longrightarrow> up_inv cmp h i \<Longrightarrow> heap_ok cmp (sortNodeUp cmp h i)"
proof (induction cmp h i rule: sortNodeUp.induct)
  case (1 cmp h i)
  let ?p = "getParentIndexOf i"
  note g = "1.prems"(1)
  have e1: "\<And>j. j < length h \<Longrightarrow> 0 < j \<Longrightarrow> j \<noteq> i \<Longrightarrow> cmp (h ! getParentIndexOf j) (h ! j) \<le> 0"
    using "1.prems"(3) unfolding up_inv_def by blast
  have e2: "\<And>j. j < length h \<Longrightarrow> 0 < j \<Longrightarrow> getParentIndexOf j = i \<Longrightarrow> 0 < i \<Longrightarrow>
              cmp (h ! ?p) (h ! j) \<le> 0"
    using "1.prems"(3) unfolding up_inv_def by blast
  show ?case
  proof (cases "0 < i \<and> cmp (h ! ?p) (h ! i) > 0")
    case False
    have "heap_ok cmp h"
      unfolding heap_ok_def
    proof (intro allI impI)
      fix j assume j: "j < length h" "0 < j"
      show "cmp (h ! getParentIndexOf j) (h ! j) \<le> 0"
      proof (cases "j = i")
        case True
        with False j show ?thesis by auto
      next
        case False
        with e1 j show ?thesis by blast
      qed
    qed
    with False show ?thesis by (simp add: sortNodeUp_stop)
  next
    case True
    then have i0: "0 < i" and gt: "cmp (h ! ?p) (h ! i) > 0" by auto
    have pi: "?p < i" using par_less i0 by blast
    have pl: "?p < length h" using pi "1.prems"(2) by simp
    have ip: "cmp (h ! i) (h ! ?p) \<le> 0" using cmp_gt_le[OF g gt] .
    let ?h = "moveNode h i ?p"
    have nth: "\<And>j. j < length h \<Longrightarrow> ?h ! j = (if j = ?p then h ! i else if j = i then h ! ?p else h ! j)"
      using moveNode_nth[OF "1.prems"(2) pl] by blast
    have "up_inv cmp ?h ?p"
      unfolding up_inv_def
    proof (intro conjI allI impI)
      fix j assume j: "j < length ?h" "0 < j" "j \<noteq> ?p"
      then have jl: "j < length h" by simp
      have pjl: "getParentIndexOf j < length h" using par_less[OF j(2)] jl by simp
      show "cmp (?h ! getParentIndexOf j) (?h ! j) \<le> 0"
      proof (cases "j = i")
        case True
        with nth[OF jl] nth[OF pl] ip pi show ?thesis by simp
      next
        case ji: False
        show ?thesis
        proof (cases "getParentIndexOf j = ?p")
          case True
          have "cmp (h ! ?p) (h ! j) \<le> 0" using e1[OF jl j(2) ji] True by simp
          with ip have "cmp (h ! i) (h ! j) \<le> 0" using cmp_trans[OF g] by blast
          with True nth[OF jl] nth[OF pl] ji j(3) show ?thesis by simp
        next
          case np: False
          show ?thesis
          proof (cases "getParentIndexOf j = i")
            case True
            have "cmp (h ! ?p) (h ! j) \<le> 0" using e2[OF jl j(2) True i0] .
            with True nth[OF jl] nth[OF "1.prems"(2)] ji j(3) pi show ?thesis by simp
          next
            case False
            with np nth[OF jl] nth[OF pjl] ji j(3) e1[OF jl j(2) ji] show ?thesis by simp
          qed
        qed
      qed
    next
      fix j assume j: "j < length ?h" "0 < j" "getParentIndexOf j = ?p" "0 < ?p"
      then have jl: "j < length h" by simp
      have ppl: "getParentIndexOf ?p < ?p" using par_less[OF j(4)] .
      have jp: "?p < j" using par_less[OF j(2)] j(3) by simp
      have a: "cmp (h ! getParentIndexOf ?p) (h ! ?p) \<le> 0"
        using e1[OF pl j(4)] pi by simp
      have hpp: "?h ! getParentIndexOf ?p = h ! getParentIndexOf ?p"
        using nth[of "getParentIndexOf ?p"] ppl pl pi by simp
      show "cmp (?h ! getParentIndexOf ?p) (?h ! j) \<le> 0"
      proof (cases "j = i")
        case True
        with hpp nth[OF jl] a pi show ?thesis by simp
      next
        case False
        have "cmp (h ! ?p) (h ! j) \<le> 0" using e1[OF jl j(2) False] j(3) by simp
        with a have "cmp (h ! getParentIndexOf ?p) (h ! j) \<le> 0" using cmp_trans[OF g] by blast
        with hpp nth[OF jl] False jp show ?thesis by simp
      qed
    qed
    with "1.IH"[OF True g] pl have "heap_ok cmp (sortNodeUp cmp ?h ?p)" by simp
    with True show ?thesis by (simp add: sortNodeUp_go)
  qed
qed

lemma bestChild_cases:
  "bestChildIndex cmp h i = 2 * i + 1 \<or> bestChildIndex cmp h i = 2 * i + 2"
  by (simp add: bestChildIndex_def)

lemma bestChild_le:
  assumes g: "good_cmp cmp" and j: "j < length h" "0 < j" "getParentIndexOf j = i"
  shows "bestChildIndex cmp h i < length h \<and> cmp (h ! bestChildIndex cmp h i) (h ! j) \<le> 0"
proof -
  from par_child[OF j(2,3)] have "j = 2 * i + 1 \<or> j = 2 * i + 2" .
  then show ?thesis
  proof
    assume l: "j = 2 * i + 1"
    show ?thesis
    proof (cases "2 * i + 2 < length h \<and> cmp (h ! (2 * i + 2)) (h ! (2 * i + 1)) < 0")
      case True
      then show ?thesis using l by (simp add: bestChildIndex_def)
    next
      case False
      then have "bestChildIndex cmp h i = 2 * i + 1" by (auto simp: bestChildIndex_def)
      with l j(1) cmp_refl[OF g] show ?thesis by simp
    qed
  next
    assume r: "j = 2 * i + 2"
    show ?thesis
    proof (cases "cmp (h ! (2 * i + 2)) (h ! (2 * i + 1)) < 0")
      case True
      with r j(1) have "bestChildIndex cmp h i = 2 * i + 2" by (simp add: bestChildIndex_def)
      with r j(1) cmp_refl[OF g] show ?thesis by simp
    next
      case False
      then have b: "bestChildIndex cmp h i = 2 * i + 1" by (simp add: bestChildIndex_def)
      from cmp_nlt_le[OF g False] r b j(1) show ?thesis by simp
    qed
  qed
qed

lemma sortNodeDownLoop_heap:
  "good_cmp cmp \<Longrightarrow> i < length h \<Longrightarrow> down_inv cmp h i \<Longrightarrow>
   heap_ok cmp (sortNodeDownLoop cmp h i)"
proof (induction cmp h i rule: sortNodeDownLoop.induct)
  case (1 cmp h i)
  let ?c = "bestChildIndex cmp h i"
  note g = "1.prems"(1)
  have e1: "\<And>j. j < length h \<Longrightarrow> 0 < j \<Longrightarrow> getParentIndexOf j \<noteq> i \<Longrightarrow>
              cmp (h ! getParentIndexOf j) (h ! j) \<le> 0"
    using "1.prems"(3) unfolding down_inv_def by blast
  have e2: "\<And>j. j < length h \<Longrightarrow> 0 < j \<Longrightarrow> getParentIndexOf j = i \<Longrightarrow> 0 < i \<Longrightarrow>
              cmp (h ! getParentIndexOf i) (h ! j) \<le> 0"
    using "1.prems"(3) unfolding down_inv_def by blast
  have pc: "getParentIndexOf ?c = i"
    using bestChild_cases[of cmp h i] par_left par_right by metis
  have ci: "i < ?c" using bestChild_cases[of cmp h i] by auto
  show ?case
  proof (cases "?c < length h \<and> cmp (h ! i) (h ! ?c) > 0")
    case False
    have "heap_ok cmp h"
      unfolding heap_ok_def
    proof (intro allI impI)
      fix j assume j: "j < length h" "0 < j"
      show "cmp (h ! getParentIndexOf j) (h ! j) \<le> 0"
      proof (cases "getParentIndexOf j = i")
        case True
        from bestChild_le[OF g j True]
        have cl: "?c < length h" and cj: "cmp (h ! ?c) (h ! j) \<le> 0" by auto
        from False cl have "cmp (h ! i) (h ! ?c) \<le> 0" by auto
        with cj True show ?thesis using cmp_trans[OF g] by blast
      next
        case False
        with e1 j show ?thesis by blast
      qed
    qed
    with False show ?thesis by (simp add: sortNodeDownLoop_stop)
  next
    case True
    then have cl: "?c < length h" and gt: "cmp (h ! i) (h ! ?c) > 0" by auto
    have le: "cmp (h ! ?c) (h ! i) \<le> 0" using cmp_gt_le[OF g gt] .
    let ?h = "moveNode h i ?c"
    have nth: "\<And>j. j < length h \<Longrightarrow> ?h ! j = (if j = ?c then h ! i else if j = i then h ! ?c else h ! j)"
      using moveNode_nth[OF "1.prems"(2) cl] by blast
    have "down_inv cmp ?h ?c"
      unfolding down_inv_def
    proof (intro conjI allI impI)
      fix j assume j: "j < length ?h" "0 < j" "getParentIndexOf j \<noteq> ?c"
      then have jl: "j < length h" by simp
      have pjl: "getParentIndexOf j < length h" using par_less[OF j(2)] jl by simp
      show "cmp (?h ! getParentIndexOf j) (?h ! j) \<le> 0"
      proof (cases "j = ?c")
        case True
        with nth[OF cl] nth[OF "1.prems"(2)] pc le ci show ?thesis by simp
      next
        case jc: False
        show ?thesis
        proof (cases "j = i")
          case True
          then have i0: "0 < i" using j(2) by simp
          have pil: "getParentIndexOf i < i" using par_less[OF i0] .
          have "cmp (h ! getParentIndexOf i) (h ! ?c) \<le> 0" using e2[OF cl _ pc i0] ci by simp
          moreover have "?h ! getParentIndexOf i = h ! getParentIndexOf i"
            using nth[of "getParentIndexOf i"] pil ci "1.prems"(2) by simp
          ultimately show ?thesis using True nth[OF "1.prems"(2)] ci by simp
        next
          case ji: False
          show ?thesis
          proof (cases "getParentIndexOf j = i")
            case True
            from bestChild_le[OF g jl j(2) True] have "cmp (h ! ?c) (h ! j) \<le> 0" by simp
            with True nth[OF jl] nth[OF "1.prems"(2)] jc ji ci show ?thesis by simp
          next
            case False
            with j(3) nth[OF jl] nth[OF pjl] jc ji e1[OF jl j(2) False] show ?thesis by simp
          qed
        qed
      qed
    next
      fix j assume j: "j < length ?h" "0 < j" "getParentIndexOf j = ?c" "0 < ?c"
      then have jl: "j < length h" by simp
      have cj: "?c < j" using par_less[OF j(2)] j(3) by simp
      have "cmp (h ! ?c) (h ! j) \<le> 0" using e1[OF jl j(2)] j(3) ci by simp
      with pc nth[OF jl] nth[OF "1.prems"(2)] cj ci show "cmp (?h ! getParentIndexOf ?c) (?h ! j) \<le> 0"
        by simp
    qed
    with "1.IH"[OF refl True g] cl have "heap_ok cmp (sortNodeDownLoop cmp ?h ?c)" by simp
    with True show ?thesis by (simp add: sortNodeDownLoop_go)
  qed
qed

lemma heap_ok_down_inv: "good_cmp cmp \<Longrightarrow> heap_ok cmp h \<Longrightarrow> down_inv cmp h i"
  unfolding heap_ok_def down_inv_def
  by (metis cmp_trans order_less_trans par_less)

lemma sortNodeDown_heap:
  assumes "good_cmp cmp" "i < length h" "down_inv cmp h i"
  shows "heap_ok cmp (sortNodeDown cmp h i)"
proof (cases "i + 1 < length h")
  case True
  with assms show ?thesis by (simp add: sortNodeDown_def sortNodeDownLoop_heap)
next
  case False
  have "heap_ok cmp h"
    unfolding heap_ok_def
  proof (intro allI impI)
    fix j assume j: "j < length h" "0 < j"
    have "getParentIndexOf j \<noteq> i" using par_less[OF j(2)] j(1) False by auto
    with assms(3) j show "cmp (h ! getParentIndexOf j) (h ! j) \<le> 0"
      unfolding down_inv_def by blast
  qed
  with False show ?thesis by (simp add: sortNodeDown_def)
qed

lemma heap_top_le:
  assumes g: "good_cmp cmp" and h: "heap_ok cmp h"
  shows "j < length h \<Longrightarrow> cmp (h ! 0) (h ! j) \<le> 0"
proof (induction j rule: less_induct)
  case (less j)
  show ?case
  proof (cases "j = 0")
    case True
    then show ?thesis using cmp_refl[OF g] by simp
  next
    case False
    then have j0: "0 < j" by simp
    have "cmp (h ! 0) (h ! getParentIndexOf j) \<le> 0"
      using less.IH[OF par_less[OF j0]] par_less[OF j0] less.prems by simp
    moreover have "cmp (h ! getParentIndexOf j) (h ! j) \<le> 0"
      using h less.prems j0 unfolding heap_ok_def by blast
    ultimately show ?thesis using cmp_trans[OF g] by blast
  qed
qed

lemma findIndex_Some:
  "findIndex P xs = Some n \<Longrightarrow> n < length xs \<and> P (xs ! n) \<and> (\<forall>k<n. \<not> P (xs ! k))"
proof (induction xs arbitrary: n)
  case Nil
  then show ?case by simp
next
  case (Cons x xs)
  show ?case
  proof (cases "P x")
    case True
    with Cons.prems show ?thesis by simp
  next
    case False
    with Cons.prems obtain m where m: "findIndex P xs = Some m" "n = Suc m"
      by (auto split: option.splits)
    from Cons.IH[OF m(1)] False m(2) show ?thesis
      by (auto simp: nth_Cons split: nat.splits)
  qed
qed

lemma findIndex_None: "findIndex P xs = None \<longleftrightarrow> (\<forall>x\<in>set xs. \<not> P x)"
  by (induction xs) (auto split: option.splits)

lemma heap_push_length [simp]: "length (heap_push cmp h x) = Suc (length h)"
  by (simp add: heap_push_def)

lemma heap_push_mset: "mset (heap_push cmp h x) = add_mset x (mset h)"
  by (simp add: heap_push_def sortNodeUp_mset)

lemma heap_push_heap:
  assumes g: "good_cmp cmp" and h: "heap_ok cmp h"
  shows "heap_ok cmp (heap_push cmp h x)"
proof -
  have "up_inv cmp (h @ [x]) (length h)"
    unfolding up_inv_def
  proof (intro conjI allI impI)
    fix j assume j: "j < length (h @ [x])" "0 < j" "j \<noteq> length h"
    then have jl: "j < length h" by simp
    with par_less[OF j(2)] have "getParentIndexOf j < length h" by simp
    with jl h j(2) show "cmp ((h @ [x]) ! getParentIndexOf j) ((h @ [x]) ! j) \<le> 0"
      unfolding heap_ok_def by (simp add: nth_append)
  next
    fix j assume j: "j < length (h @ [x])" "0 < j" "getParentIndexOf j = length h"
    with par_less[OF j(2)] have False by simp
    then show "cmp ((h @ [x]) ! getParentIndexOf (length h)) ((h @ [x]) ! j) \<le> 0" ..
  qed
  then show ?thesis unfolding heap_push_def by (intro sortNodeUp_heap[OF g]) simp_all
qed

lemma butlast_update_mset:
  assumes "idx < length h - 1"
  shows "mset ((butlast h)[idx := last h]) = mset h - {#h ! idx#}"
proof -
  from assms have ne: "h \<noteq> []" by auto
  have bl: "idx < length (butlast h)" using assms by simp
  have "mset h = add_mset (last h) (mset (butlast h))"
    using ne by (metis append_butlast_last_id mset.simps(2) mset_append union_mset_add_mset_right add.right_neutral mset.simps(1))
  moreover have "mset ((butlast h)[idx := last h]) = add_mset (last h) (mset (butlast h) - {#butlast h ! idx#})"
    using bl by (simp add: mset_update)
  moreover have "butlast h ! idx = h ! idx" using bl by (simp add: nth_butlast)
  moreover have "h ! idx \<in># mset (butlast h)" using bl \<open>butlast h ! idx = h ! idx\<close>
    by (metis nth_mem set_mset_mset)
  ultimately show ?thesis by simp
qed

lemma heap_pop_mset: "h \<noteq> [] \<Longrightarrow> mset (heap_pop cmp h) = mset h - {#h ! 0#}"
proof -
  assume ne: "h \<noteq> []"
  show ?thesis
  proof (cases "butlast h = []")
    case True
    with ne have "h = [h ! 0]" by (cases h) (auto split: if_splits)
    then have "mset h - {#h ! 0#} = {#}" by (metis add_mset_remove_trivial mset.simps(1) mset.simps(2))
    with True ne show ?thesis by (simp add: heap_pop_def)
  next
    case False
    then have "0 < length h - 1" by (cases h) auto
    from butlast_update_mset[OF this] False ne show ?thesis
      by (cases "butlast h") (simp_all add: heap_pop_def sortNodeDown_mset)
  qed
qed

lemma heap_pop_length: "h \<noteq> [] \<Longrightarrow> length (heap_pop cmp h) = length h - 1"
  by (cases "butlast h") (auto simp: heap_pop_def dest: arg_cong[where f = length])

lemma heap_ok_butlast_update:
  assumes g: "good_cmp cmp" and h: "heap_ok cmp h" and idx: "idx < length h - 1"
  defines "h' \<equiv> (butlast h)[idx := last h]"
  shows "\<And>j. j < length h' \<Longrightarrow> 0 < j \<Longrightarrow> j \<noteq> idx \<Longrightarrow> getParentIndexOf j \<noteq> idx \<Longrightarrow>
            cmp (h' ! getParentIndexOf j) (h' ! j) \<le> 0"
    and "\<And>j. j < length h' \<Longrightarrow> 0 < j \<Longrightarrow> getParentIndexOf j = idx \<Longrightarrow> 0 < idx \<Longrightarrow>
            cmp (h' ! getParentIndexOf idx) (h' ! j) \<le> 0"
proof -
  have len: "length h' = length h - 1" by (simp add: h'_def)
  have nth: "\<And>j. j < length h' \<Longrightarrow> j \<noteq> idx \<Longrightarrow> h' ! j = h ! j"
    by (simp add: h'_def nth_butlast)
  have e: "\<And>j. j < length h \<Longrightarrow> 0 < j \<Longrightarrow> cmp (h ! getParentIndexOf j) (h ! j) \<le> 0"
    using h unfolding heap_ok_def by blast
  {
    fix j assume j: "j < length h'" "0 < j" "j \<noteq> idx" "getParentIndexOf j \<noteq> idx"
    have "getParentIndexOf j < length h'" using par_less[OF j(2)] j(1) by simp
    with nth[OF j(1) j(3)] nth[OF this j(4)] e[of j] j len
    show "cmp (h' ! getParentIndexOf j) (h' ! j) \<le> 0" by simp
  }
  {
    fix j assume j: "j < length h'" "0 < j" "getParentIndexOf j = idx" "0 < idx"
    have ij: "idx < j" using par_less[OF j(2)] j(3) by simp
    have pl: "getParentIndexOf idx < idx" using par_less[OF j(4)] .
    have "cmp (h ! getParentIndexOf idx) (h ! idx) \<le> 0" using e[of idx] idx j(4) by simp
    moreover have "cmp (h ! idx) (h ! j) \<le> 0" using e[of j] j len by simp
    ultimately have "cmp (h ! getParentIndexOf idx) (h ! j) \<le> 0" using cmp_trans[OF g] by blast
    moreover have "h' ! j = h ! j" using nth[OF j(1)] ij by simp
    moreover have "h' ! getParentIndexOf idx = h ! getParentIndexOf idx"
      using nth[of "getParentIndexOf idx"] pl idx len by simp
    ultimately show "cmp (h' ! getParentIndexOf idx) (h' ! j) \<le> 0" by simp
  }
qed

lemma heap_pop_heap:
  assumes g: "good_cmp cmp" and h: "heap_ok cmp h"
  shows "heap_ok cmp (heap_pop cmp h)"
proof (cases "h = [] \<or> butlast h = []")
  case True
  then show ?thesis by (auto simp: heap_pop_def heap_ok_def)
next
  case False
  then have idx: "0 < length h - 1" by (cases h) auto
  let ?h = "(butlast h)[0 := last h]"
  have "down_inv cmp ?h 0"
    unfolding down_inv_def
  proof (intro conjI allI impI)
    fix j assume j: "j < length ?h" "0 < j" "getParentIndexOf j \<noteq> 0"
    from heap_ok_butlast_update(1)[OF g h idx j(1) j(2) _ j(3)] j(2)
    show "cmp (?h ! getParentIndexOf j) (?h ! j) \<le> 0" by simp
  next
    fix j assume "(0::nat) < 0"
    then show "cmp (?h ! getParentIndexOf 0) (?h ! j) \<le> 0" by simp
  qed
  with False idx show ?thesis
    by (simp add: heap_pop_def sortNodeDown_heap[OF g])
qed

lemma heap_remove_mid_heap:
  assumes g: "good_cmp cmp" and h: "heap_ok cmp h" and idx: "idx < length h - 1"
  shows "heap_ok cmp (sortNodeDown cmp (sortNodeUp cmp ((butlast h)[idx := last h]) idx) idx)"
proof -
  let ?h = "(butlast h)[idx := last h]"
  let ?p = "getParentIndexOf idx"
  have il: "idx < length ?h" using idx by simp
  note e1 = heap_ok_butlast_update(1)[OF g h idx]
  note e2 = heap_ok_butlast_update(2)[OF g h idx]
  show ?thesis
  proof (cases "0 < idx \<and> cmp (?h ! ?p) (?h ! idx) > 0")
    case True
    then have i0: "0 < idx" and gt: "cmp (?h ! ?p) (?h ! idx) > 0" by auto
    have ip: "cmp (?h ! idx) (?h ! ?p) \<le> 0" using cmp_gt_le[OF g gt] .
    have "up_inv cmp ?h idx"
      unfolding up_inv_def
    proof (intro conjI allI impI)
      fix j assume j: "j < length ?h" "0 < j" "j \<noteq> idx"
      show "cmp (?h ! getParentIndexOf j) (?h ! j) \<le> 0"
      proof (cases "getParentIndexOf j = idx")
        case True
        from e2[OF j(1) j(2) True i0] ip True show ?thesis using cmp_trans[OF g] by metis
      next
        case False
        from e1[OF j False] show ?thesis .
      qed
    next
      fix j assume j: "j < length ?h" "0 < j" "getParentIndexOf j = idx" "0 < idx"
      from e2[OF this] show "cmp (?h ! ?p) (?h ! j) \<le> 0" .
    qed
    from sortNodeUp_heap[OF g il this] have "heap_ok cmp (sortNodeUp cmp ?h idx)" .
    from heap_ok_down_inv[OF g this] have "down_inv cmp (sortNodeUp cmp ?h idx) idx" .
    from sortNodeDown_heap[OF g _ this] il show ?thesis by simp
  next
    case False
    then have st: "sortNodeUp cmp ?h idx = ?h" by (rule sortNodeUp_stop)
    have "down_inv cmp ?h idx"
      unfolding down_inv_def
    proof (intro conjI allI impI)
      fix j assume j: "j < length ?h" "0 < j" "getParentIndexOf j \<noteq> idx"
      show "cmp (?h ! getParentIndexOf j) (?h ! j) \<le> 0"
      proof (cases "j = idx")
        case True
        with False j(2) show ?thesis by auto
      next
        case False
        from e1[OF j(1) j(2) False j(3)] show ?thesis .
      qed
    next
      fix j assume j: "j < length ?h" "0 < j" "getParentIndexOf j = idx" "0 < idx"
      from e2[OF this] show "cmp (?h ! ?p) (?h ! j) \<le> 0" .
    qed
    from sortNodeDown_heap[OF g il this] st show ?thesis by simp
  qed
qed

lemma heap_ok_butlast: "heap_ok cmp h \<Longrightarrow> heap_ok cmp (butlast h)"
  unfolding heap_ok_def
proof (intro allI impI)
  fix i assume a: "\<forall>i<length h. 0 < i \<longrightarrow> cmp (h ! getParentIndexOf i) (h ! i) \<le> 0"
    and i: "i < length (butlast h)" "0 < i"
  have "getParentIndexOf i < length (butlast h)" using par_less[OF i(2)] i(1) by simp
  with a i show "cmp (butlast h ! getParentIndexOf i) (butlast h ! i) \<le> 0"
    by (simp add: nth_butlast)
qed

lemma heap_remove_heap:
  assumes g: "good_cmp cmp" and h: "heap_ok cmp h"
  shows "heap_ok cmp (heap_remove cmp h x)"
proof (cases "findIndex (\<lambda>el. el = x) h")
  case None
  with h show ?thesis by (simp add: heap_remove_def)
next
  case (Some idx)
  from findIndex_Some[OF Some] have il: "idx < length h" by simp
  show ?thesis
  proof (cases "idx = 0")
    case True
    with Some heap_pop_heap[OF g h] show ?thesis by (simp add: heap_remove_def)
  next
    case n0: False
    show ?thesis
    proof (cases "idx = length h - 1")
      case True
      with Some n0 heap_ok_butlast[OF h] show ?thesis by (simp add: heap_remove_def)
    next
      case False
      with il have "idx < length h - 1" by simp
      from heap_remove_mid_heap[OF g h this] Some n0 False show ?thesis
        by (simp add: heap_remove_def)
    qed
  qed
qed

lemma heap_remove_mset: "mset (heap_remove cmp h x) = mset h - {#x#}"
proof (cases "findIndex (\<lambda>el. el = x) h")
  case None
  then have "x \<notin> set h" by (auto simp: findIndex_None)
  then have "mset h - {#x#} = mset h" by (metis diff_single_trivial set_mset_mset)
  with None show ?thesis by (simp add: heap_remove_def)
next
  case (Some idx)
  from findIndex_Some[OF Some] have il: "idx < length h" and hx: "h ! idx = x" by simp_all
  then have ne: "h \<noteq> []" by auto
  show ?thesis
  proof (cases "idx = 0")
    case True
    with Some heap_pop_mset[OF ne] hx show ?thesis by (simp add: heap_remove_def)
  next
    case n0: False
    show ?thesis
    proof (cases "idx = length h - 1")
      case True
      then have "x = last h" using hx ne by (simp add: last_conv_nth)
      moreover have "mset h = add_mset (last h) (mset (butlast h))"
        using ne by (metis append_butlast_last_id mset.simps(2) mset_append union_mset_add_mset_right add.right_neutral mset.simps(1))
      ultimately have "mset (butlast h) = mset h - {#x#}" by simp
      with Some n0 True show ?thesis by (simp add: heap_remove_def)
    next
      case False
      with il have lt: "idx < length h - 1" by simp
      from butlast_update_mset[OF lt] hx Some n0 False lt show ?thesis
        by (simp add: heap_remove_def sortNodeDown_mset sortNodeUp_mset)
    qed
  qed
qed

lemma heap_peek_le:
  assumes "good_cmp cmp" "heap_ok cmp h" "heap_peek h = Some b" "y \<in> set h"
  shows "cmp b y \<le> 0"
proof -
  from assms(4) obtain j where j: "j < length h" "h ! j = y" by (auto simp: in_set_conv_nth)
  from assms(3) have "h ! 0 = b" by (auto simp: heap_peek_def split: list.splits)
  with heap_top_le[OF assms(1,2) j(1)] j(2) show ?thesis by simp
qed

section \<open>Decimal arithmetic is exact\<close>

lemma big_val_zero [simp]: "big_val big_zero = 0"
  by (simp add: big_val_def big_zero_def)

lemma big_val_less:
  "(big_val x < big_val y) = (mant x * 10 ^ scale y < mant y * 10 ^ scale x)"
proof -
  have "(big_val x < big_val y) =
        ((of_int (mant x) * 10 ^ scale y :: rat) < of_int (mant y) * 10 ^ scale x)"
    unfolding big_val_def by (simp add: field_simps)
  also have "\<dots> = ((of_int (mant x * 10 ^ scale y) :: rat) < of_int (mant y * 10 ^ scale x))"
    by simp
  also have "\<dots> = (mant x * 10 ^ scale y < mant y * 10 ^ scale x)"
    by (rule of_int_less_iff)
  finally show ?thesis .
qed

lemma big_val_eq:
  "(big_val x = big_val y) = (mant x * 10 ^ scale y = mant y * 10 ^ scale x)"
proof -
  have "(big_val x = big_val y) =
        ((of_int (mant x) * 10 ^ scale y :: rat) = of_int (mant y) * 10 ^ scale x)"
    unfolding big_val_def by (simp add: field_simps)
  also have "\<dots> = ((of_int (mant x * 10 ^ scale y) :: rat) = of_int (mant y * 10 ^ scale x))"
    by simp
  also have "\<dots> = (mant x * 10 ^ scale y = mant y * 10 ^ scale x)"
    by (rule of_int_eq_iff)
  finally show ?thesis .
qed

lemma big_cmp_val:
  "big_cmp x y = (if big_val x < big_val y then - 1 else if big_val x = big_val y then 0 else 1)"
  by (simp add: big_cmp_def Let_def big_val_less big_val_eq)

lemma big_lt_val: "big_lt x y = (big_val x < big_val y)"
  by (auto simp: big_lt_def big_cmp_val)

lemma big_gt_val: "big_gt x y = (big_val y < big_val x)"
  by (auto simp: big_gt_def big_cmp_val)

lemma big_gte_val: "big_gte x y = (big_val y \<le> big_val x)"
  by (auto simp: big_gte_def big_cmp_val)

lemma big_lte_val: "big_lte x y = (big_val x \<le> big_val y)"
  by (auto simp: big_lte_def big_cmp_val)

lemma big_eq_val: "big_eq x y = (big_val x = big_val y)"
  by (auto simp: big_eq_def big_cmp_val)

lemma big_val_scale_up: "big_val (Big (m * 10 ^ d) (k + d)) = big_val (Big m k)"
  by (simp add: big_val_def power_add)

lemma big_minus_val: "big_val (big_minus x y) = big_val x - big_val y"
proof -
  let ?k = "max (scale x) (scale y)"
  have a: "(of_int (mant x * 10 ^ (?k - scale x)) :: rat) / 10 ^ ?k = big_val x"
    using big_val_scale_up[of "mant x" "?k - scale x" "scale x"]
    by (simp add: big_val_def)
  have b: "(of_int (mant y * 10 ^ (?k - scale y)) :: rat) / 10 ^ ?k = big_val y"
    using big_val_scale_up[of "mant y" "?k - scale y" "scale y"]
    by (simp add: big_val_def)
  have "big_val (big_minus x y) =
        (of_int (mant x * 10 ^ (?k - scale x)) :: rat) / 10 ^ ?k -
        (of_int (mant y * 10 ^ (?k - scale y)) :: rat) / 10 ^ ?k"
    by (simp add: big_minus_def Let_def big_val_def diff_divide_distrib)
  with a b show ?thesis by simp
qed

lemma big_plus_val: "big_val (big_plus x y) = big_val x + big_val y"
proof -
  let ?k = "max (scale x) (scale y)"
  have a: "(of_int (mant x * 10 ^ (?k - scale x)) :: rat) / 10 ^ ?k = big_val x"
    using big_val_scale_up[of "mant x" "?k - scale x" "scale x"]
    by (simp add: big_val_def)
  have b: "(of_int (mant y * 10 ^ (?k - scale y)) :: rat) / 10 ^ ?k = big_val y"
    using big_val_scale_up[of "mant y" "?k - scale y" "scale y"]
    by (simp add: big_val_def)
  have "big_val (big_plus x y) =
        (of_int (mant x * 10 ^ (?k - scale x)) :: rat) / 10 ^ ?k +
        (of_int (mant y * 10 ^ (?k - scale y)) :: rat) / 10 ^ ?k"
    by (simp add: big_plus_def Let_def big_val_def add_divide_distrib)
  with a b show ?thesis by simp
qed

lemma bids_compare_le:
  "(bids_compare os a b \<le> 0) =
   (big_val (price (os ! b)) < big_val (price (os ! a)) \<or>
    (big_val (price (os ! a)) = big_val (price (os ! b)) \<and> ts (os ! a) \<le> ts (os ! b)))"
  by (auto simp: bids_compare_def big_eq_val big_cmp_val)

lemma bids_compare_lt:
  "(bids_compare os a b < 0) =
   (big_val (price (os ! b)) < big_val (price (os ! a)) \<or>
    (big_val (price (os ! a)) = big_val (price (os ! b)) \<and> ts (os ! a) < ts (os ! b)))"
  by (auto simp: bids_compare_def big_eq_val big_cmp_val)

lemma asks_compare_le:
  "(asks_compare os a b \<le> 0) =
   (big_val (price (os ! a)) < big_val (price (os ! b)) \<or>
    (big_val (price (os ! a)) = big_val (price (os ! b)) \<and> ts (os ! a) \<le> ts (os ! b)))"
  by (auto simp: asks_compare_def big_eq_val big_cmp_val)

lemma asks_compare_lt:
  "(asks_compare os a b < 0) =
   (big_val (price (os ! a)) < big_val (price (os ! b)) \<or>
    (big_val (price (os ! a)) = big_val (price (os ! b)) \<and> ts (os ! a) < ts (os ! b)))"
  by (auto simp: asks_compare_def big_eq_val big_cmp_val)

lemma lex_anti:
  fixes p q :: rat and s t :: nat
  shows "(p < q \<or> (p = q \<and> s < t)) = (\<not> (q < p \<or> (q = p \<and> t \<le> s)))"
  by (cases "p < q"; cases "p = q") auto

lemma bids_compare_good: "good_cmp (bids_compare os)"
  unfolding good_cmp_def
proof (intro conjI allI impI)
  fix a b
  have "(0 < bids_compare os b a) = (\<not> bids_compare os b a \<le> 0)" by (simp add: not_le)
  then show "(bids_compare os a b < 0) = (0 < bids_compare os b a)"
    unfolding bids_compare_lt bids_compare_le using lex_anti[of "big_val (price (os ! b))" "big_val (price (os ! a))" "ts (os ! a)" "ts (os ! b)"] 
    by (simp add: eq_commute)
next
  fix a b c
  assume "bids_compare os a b \<le> 0" "bids_compare os b c \<le> 0"
  then show "bids_compare os a c \<le> 0"
    unfolding bids_compare_le
    by (elim disjE conjE) simp_all
qed

lemma asks_compare_good: "good_cmp (asks_compare os)"
  unfolding good_cmp_def
proof (intro conjI allI impI)
  fix a b
  have "(0 < asks_compare os b a) = (\<not> asks_compare os b a \<le> 0)" by (simp add: not_le)
  then show "(asks_compare os a b < 0) = (0 < asks_compare os b a)"
    unfolding asks_compare_lt asks_compare_le using lex_anti[of "big_val (price (os ! a))" "big_val (price (os ! b))" "ts (os ! a)" "ts (os ! b)"] 
    by (simp add: eq_commute)
next
  fix a b c
  assume "asks_compare os a b \<le> 0" "asks_compare os b c \<le> 0"
  then show "asks_compare os a c \<le> 0"
    unfolding asks_compare_le
    by (elim disjE conjE) simp_all
qed

section \<open>Decimal strings\<close>







lemma digit_of_0: "digit_of (CHR ''0'') = 0"
  by (simp add: digit_of_def)


lemma digits_val_Nil [simp]: "digits_val [] = 0"
  by (simp add: digits_val_def)





lemma digits_val_zeros [simp]: "digits_val (replicate j CHR ''0'' @ s) = digits_val s"
proof -
  have "foldl (\<lambda>a c. 10 * a + digit_of c) 0 (replicate j CHR ''0'') = 0"
    by (induction j) (simp_all add: digit_of_0)
  then show ?thesis by (simp add: digits_val_def)
qed


















lemma strip_trailing_Nil [simp]: "strip_trailing [] = []"
  by (simp add: strip_trailing_def)











section \<open>The loop of match\<close>

lemma match_stop: "match_next i b = None \<Longrightarrow> match i b = Some b"
  by (subst match.simps) simp

lemma match_go: "match_next i b = Some best \<Longrightarrow> match i b = match i (match_step i best b)"
  by (subst match.simps) simp

lemma mset_remove_distinct:
  assumes "mset ys = mset xs - {#x#}" "distinct xs"
  shows "distinct ys \<and> set ys = set xs - {x}"
proof -
  have c: "\<And>a. count (mset xs) a = (if a \<in> set xs then 1 else 0)"
    using assms(2) by (simp add: distinct_count_atmost_1)
  have cy: "\<And>a. count (mset ys) a = (if a \<in> set xs \<and> a \<noteq> x then 1 else 0)"
    using assms(1) c by simp
  have s: "set ys = set xs - {x}"
  proof (intro set_eqI)
    fix a
    have "(a \<in> set ys) = (0 < count (mset ys) a)" by (simp add: count_greater_zero_iff)
    also have "\<dots> = (a \<in> set xs - {x})" using cy[of a] by simp
    finally show "(a \<in> set ys) = (a \<in> set xs - {x})" .
  qed
  have "distinct ys"
    unfolding distinct_count_atmost_1 using cy s by simp
  with s show ?thesis by simp
qed

lemma heap_remove_set:
  "distinct h \<Longrightarrow> distinct (heap_remove cmp h x) \<and> set (heap_remove cmp h x) = set h - {x}"
  by (rule mset_remove_distinct[OF heap_remove_mset])

lemma heap_remove_length:
  "x \<in> set h \<Longrightarrow> length (heap_remove cmp h x) = length h - 1"
proof -
  assume "x \<in> set h"
  then have "size (mset h - {#x#}) = size (mset h) - 1"
    by (simp add: size_Diff_singleton)
  then show ?thesis using heap_remove_mset[of cmp h x] by (metis size_mset)
qed

lemma heap_push_set: "set (heap_push cmp h x) = insert x (set h)"
  using heap_push_mset[of cmp h x] by (metis set_mset_add_mset_insert set_mset_mset)

lemma heap_push_distinct: "distinct h \<Longrightarrow> x \<notin> set h \<Longrightarrow> distinct (heap_push cmp h x)"
proof -
  assume a: "distinct h" "x \<notin> set h"
  have "mset (heap_push cmp h x) = mset (x # h)" by (simp add: heap_push_mset)
  then have "distinct (heap_push cmp h x) = distinct (x # h)" by (rule mset_eq_imp_distinct_iff)
  with a show ?thesis by simp
qed

lemma heap_ok_cong:
  assumes "\<And>x y. x \<in> set h \<Longrightarrow> y \<in> set h \<Longrightarrow> cmp x y = cmp' x y"
  shows "heap_ok cmp h = heap_ok cmp' h"
proof -
  have "\<And>i. i < length h \<Longrightarrow> 0 < i \<Longrightarrow>
          cmp (h ! getParentIndexOf i) (h ! i) = cmp' (h ! getParentIndexOf i) (h ! i)"
  proof -
    fix i assume i: "i < length h" "0 < i"
    then have "getParentIndexOf i < length h" using par_less[OF i(2)] by simp
    with i assms show "cmp (h ! getParentIndexOf i) (h ! i) = cmp' (h ! getParentIndexOf i) (h ! i)"
      by simp
  qed
  then show ?thesis unfolding heap_ok_def by auto
qed

lemma bids_compare_cong:
  "price (os' ! x) = price (os ! x) \<Longrightarrow> ts (os' ! x) = ts (os ! x) \<Longrightarrow>
   price (os' ! y) = price (os ! y) \<Longrightarrow> ts (os' ! y) = ts (os ! y) \<Longrightarrow>
   bids_compare os' x y = bids_compare os x y"
  by (simp add: bids_compare_def)

lemma asks_compare_cong:
  "price (os' ! x) = price (os ! x) \<Longrightarrow> ts (os' ! x) = ts (os ! x) \<Longrightarrow>
   price (os' ! y) = price (os ! y) \<Longrightarrow> ts (os' ! y) = ts (os ! y) \<Longrightarrow>
   asks_compare os' x y = asks_compare os x y"
  by (simp add: asks_compare_def)

lemma heap_peek_Some: "heap_peek h = Some x \<Longrightarrow> x \<in> set h \<and> h ! 0 = x"
  by (auto simp: heap_peek_def split: list.splits)

lemma match_next_Some:
  "match_next i b = Some best \<Longrightarrow>
   best \<in> set (bookSide i b) \<and> heap_peek (bookSide i b) = Some best \<and>
   big_gt (remaining (objs b ! i)) big_zero \<and> priceOK i best b"
  by (auto simp: match_next_def heap_peek_Some split: if_splits option.splits)

lemma step_objs_length [simp]: "length (step_objs i best b) = length (objs b)"
  by (simp add: step_objs_def)

lemma step_objs_nth:
  "i \<noteq> best \<Longrightarrow> r < length (objs b) \<Longrightarrow>
   step_objs i best b ! r =
     (if r = best
      then (objs b ! best)\<lparr>remaining := big_minus (remaining (objs b ! best)) (tradeQty i best b)\<rparr>
      else if r = i
      then (objs b ! i)\<lparr>remaining := big_minus (remaining (objs b ! i)) (tradeQty i best b)\<rparr>
      else objs b ! r)"
  by (simp add: step_objs_def nth_list_update)

lemma step_objs_fields:
  assumes "i \<noteq> best" "r < length (objs b)"
  shows "bo_side (step_objs i best b ! r) = bo_side (objs b ! r)"
    and "bo_id (step_objs i best b ! r) = bo_id (objs b ! r)"
    and "price (step_objs i best b ! r) = price (objs b ! r)"
    and "ts (step_objs i best b ! r) = ts (objs b ! r)"
    and "bo_account (step_objs i best b ! r) = bo_account (objs b ! r)"
    and "bo_pair (step_objs i best b ! r) = bo_pair (objs b ! r)"
  using assms by (simp_all add: step_objs_nth)

lemma match_step_unfold:
  assumes "i \<noteq> best" "i < length (objs b)" "best < length (objs b)"
  shows "match_step i best b =
     (if big_eq (remaining (step_objs i best b ! best)) big_zero
      then remove_order best (b\<lparr>trades := trades b @ [make_trade i best b],
                                objs := step_objs i best b\<rparr>)
      else b\<lparr>trades := trades b @ [make_trade i best b], objs := step_objs i best b\<rparr>)"
proof -
  have "objs (set_remaining i v (b\<lparr>trades := t\<rparr>)) ! best = objs b ! best" for v t
    using assms by (simp add: set_remaining_def)
  then show ?thesis
    using assms
    by (simp add: match_step_def Let_def set_remaining_def step_objs_def)
qed

lemma remove_order_BUY:
  "bo_side (objs b ! r) = BUY \<Longrightarrow>
   remove_order r b = b\<lparr>bids := heap_remove (bids_compare (objs b)) (bids b) r,
                        idIndex := (idIndex b)(bo_id (objs b ! r) := None)\<rparr>"
  by (simp add: remove_order_def)

lemma remove_order_SELL:
  "bo_side (objs b ! r) = SELL \<Longrightarrow>
   remove_order r b = b\<lparr>asks := heap_remove (asks_compare (objs b)) (asks b) r,
                        idIndex := (idIndex b)(bo_id (objs b ! r) := None)\<rparr>"
  by (simp add: remove_order_def)

lemma side_neq_BUY: "(s \<noteq> BUY) = (s = SELL)"
  by (cases s) auto

lemma side_neq_SELL: "(s \<noteq> SELL) = (s = BUY)"
  by (cases s) auto

lemma match_wf_best:
  assumes "match_wf i b" "match_next i b = Some best"
  shows "best \<in> set (bookSide i b)" "best < length (objs b)" "best \<noteq> i" "i < length (objs b)"
    "bo_side (objs b ! best) \<noteq> bo_side (objs b ! i)"
  using assms match_next_Some[OF assms(2)] unfolding match_wf_def by auto

lemma match_step_bookSide:
  assumes wf: "match_wf i b" and nx: "match_next i b = Some best"
  shows "bo_side (objs (match_step i best b) ! i) = bo_side (objs b ! i)"
    and "length (objs (match_step i best b)) = length (objs b)"
    and "bookSide i (match_step i best b) =
           (if big_eq (remaining (step_objs i best b ! best)) big_zero
            then heap_remove (if bo_side (objs b ! i) = BUY then asks_compare (step_objs i best b)
                              else bids_compare (step_objs i best b)) (bookSide i b) best
            else bookSide i b)"
    and "objs (match_step i best b) = step_objs i best b"
proof -
  note w = match_wf_best[OF wf nx]
  note u = match_step_unfold[OF w(3)[symmetric] w(4) w(2)]
  have sb: "bo_side (step_objs i best b ! best) = bo_side (objs b ! best)"
    using step_objs_fields(1)[OF w(3)[symmetric] w(2)] .
  have si: "bo_side (step_objs i best b ! i) = bo_side (objs b ! i)"
    using step_objs_fields(1)[OF w(3)[symmetric] w(4)] .
  show o: "objs (match_step i best b) = step_objs i best b"
    unfolding u by (simp add: remove_order_def)
  show "bo_side (objs (match_step i best b) ! i) = bo_side (objs b ! i)"
    unfolding o by (rule si)
  show "length (objs (match_step i best b)) = length (objs b)"
    unfolding o by simp
  show "bookSide i (match_step i best b) =
           (if big_eq (remaining (step_objs i best b ! best)) big_zero
            then heap_remove (if bo_side (objs b ! i) = BUY then asks_compare (step_objs i best b)
                              else bids_compare (step_objs i best b)) (bookSide i b) best
            else bookSide i b)"
  proof (cases "bo_side (objs b ! i)")
    case BUY
    with w(5) have "bo_side (objs b ! best) = SELL" by (simp add: side_neq_BUY)
    with BUY sb si show ?thesis
      unfolding u by (simp add: bookSide_def remove_order_SELL)
  next
    case SELL
    with w(5) have "bo_side (objs b ! best) = BUY" by (simp add: side_neq_SELL)
    with SELL sb si show ?thesis
      unfolding u by (simp add: bookSide_def remove_order_BUY)
  qed
qed

lemma tradeQty_val:
  "big_val (tradeQty i best b) =
   min (big_val (remaining (objs b ! i))) (big_val (remaining (objs b ! best)))"
  by (simp add: tradeQty_def big_lt_val min_def)

lemma match_step_progress:
  assumes wf: "match_wf i b" and nx: "match_next i b = Some best"
  shows "match_wf i (match_step i best b)"
    and "length (bookSide i (match_step i best b)) < length (bookSide i b) \<or>
         (bookSide i (match_step i best b) = bookSide i b \<and>
          big_eq (remaining (objs (match_step i best b) ! i)) big_zero)"
proof -
  note w = match_wf_best[OF wf nx]
  note s = match_step_bookSide[OF wf nx]
  let ?b = "match_step i best b"
  have sub: "set (bookSide i ?b) \<subseteq> set (bookSide i b)"
    unfolding s(3) using heap_remove_mset[of _ "bookSide i b" best]
    by (auto dest: in_diffD simp flip: set_mset_mset)
  have side: "\<And>r. r < length (objs b) \<Longrightarrow> bo_side (objs ?b ! r) = bo_side (objs b ! r)"
    unfolding s(4) using step_objs_fields(1)[OF w(3)[symmetric]] by blast
  show "match_wf i ?b"
    unfolding match_wf_def
  proof (intro conjI ballI)
    show "i < length (objs ?b)" using s(2) w(4) by simp
  next
    fix r assume "r \<in> set (bookSide i ?b)"
    with sub have r: "r \<in> set (bookSide i b)" by blast
    with wf have rr: "r < length (objs b)" "r \<noteq> i" "bo_side (objs b ! r) \<noteq> bo_side (objs b ! i)"
      unfolding match_wf_def by auto
    show "r < length (objs ?b)" using rr s(2) by simp
    show "r \<noteq> i" by fact
    show "bo_side (objs ?b ! r) \<noteq> bo_side (objs ?b ! i)"
      using side[OF rr(1)] side[OF w(4)] rr(3) by simp
  qed
  show "length (bookSide i ?b) < length (bookSide i b) \<or>
        (bookSide i ?b = bookSide i b \<and> big_eq (remaining (objs ?b ! i)) big_zero)"
  proof (cases "big_eq (remaining (step_objs i best b ! best)) big_zero")
    case True
    then have "length (bookSide i ?b) = length (bookSide i b) - 1"
      unfolding s(3) using heap_remove_length[OF w(1)] by simp
    moreover have "bookSide i b \<noteq> []" using w(1) by auto
    ultimately show ?thesis by (cases "bookSide i b") auto
  next
    case False
    then have ne: "big_val (remaining (objs b ! best)) - big_val (tradeQty i best b) \<noteq> 0"
      using step_objs_nth[OF w(3)[symmetric] w(2)]
      by (simp add: big_eq_val big_minus_val)
    then have "big_val (tradeQty i best b) = big_val (remaining (objs b ! i))"
      unfolding tradeQty_val by (auto simp: min_def split: if_splits)
    then have "big_eq (remaining (step_objs i best b ! i)) big_zero"
      using step_objs_nth[OF w(3)[symmetric] w(4)] w(3)
      by (simp add: big_eq_val big_minus_val)
    with False show ?thesis unfolding s(3) s(4) by simp
  qed
qed

lemma match_rule_aux:
  assumes step: "\<And>b best. match_wf i b \<Longrightarrow> P b \<Longrightarrow> match_next i b = Some best \<Longrightarrow>
                   P (match_step i best b)"
  shows "match_wf i b \<Longrightarrow> P b \<Longrightarrow>
         length (bookSide i b) \<le> n \<or> match_next i b = None \<Longrightarrow>
         match i b = Some (match_steps n i b) \<and> P (match_steps n i b) \<and>
         match_wf i (match_steps n i b) \<and> match_next i (match_steps n i b) = None"
proof (induction n arbitrary: b)
  case 0
  have "match_next i b = None"
  proof (cases "match_next i b")
    case (Some best)
    from match_next_Some[OF Some] have "bookSide i b \<noteq> []" by auto
    with 0 Some show ?thesis by simp
  qed simp
  with 0 show ?case by (simp add: match_stop)
next
  case (Suc n)
  show ?case
  proof (cases "match_next i b")
    case None
    with Suc.prems show ?thesis by (simp add: match_stop)
  next
    case (Some best)
    let ?b = "match_step i best b"
    note pr = match_step_progress[OF Suc.prems(1) Some]
    have nonempty: "bookSide i b \<noteq> []" using match_next_Some[OF Some] by auto
    have "length (bookSide i ?b) \<le> n \<or> match_next i ?b = None"
    proof (cases "length (bookSide i ?b) < length (bookSide i b)")
      case True
      with Suc.prems(3) Some show ?thesis by simp
    next
      case False
      with pr(2) have "big_eq (remaining (objs ?b ! i)) big_zero" by blast
      then have "\<not> big_gt (remaining (objs ?b ! i)) big_zero"
        by (simp add: big_eq_val big_gt_val)
      then show ?thesis by (simp add: match_next_def)
    qed
    from Suc.IH[OF pr(1) step[OF Suc.prems(1,2) Some] this] Some
    show ?thesis by (simp add: match_go)
  qed
qed

lemma match_rule:
  assumes "match_wf i b" "P b"
    and "\<And>b best. match_wf i b \<Longrightarrow> P b \<Longrightarrow> match_next i b = Some best \<Longrightarrow>
            P (match_step i best b)"
  shows "\<exists>b'. match i b = Some b' \<and> P b' \<and> match_wf i b' \<and> match_next i b' = None"
  using match_rule_aux[where P = P and n = "length (bookSide i b)", OF assms(3) assms(1,2)]
  by blast

lemmas ex_defs = ex_book_def ex_order_def bookSide_def match_next_def heap_peek_def priceOK_def
  big_gt_def big_gte_def big_lte_def big_lt_def big_eq_def big_cmp_def big_zero_def big_minus_def
  match_wf_def tradeQty_def

section \<open>The invariant of a book\<close>

lemma inv_structD:
  assumes "inv_struct b"
  shows "distinct (bids b)" and "distinct (asks b)"
    and "\<And>r. r \<in> set (bids b) \<Longrightarrow> r < length (objs b) \<and> bo_side (objs b ! r) = BUY"
    and "\<And>r. r \<in> set (asks b) \<Longrightarrow> r < length (objs b) \<and> bo_side (objs b ! r) = SELL"
    and "heap_ok (bids_compare (objs b)) (bids b)"
    and "heap_ok (asks_compare (objs b)) (asks b)"
    and "\<And>k r. idIndex b k = Some r \<Longrightarrow> r \<in> resting b \<and> bo_id (objs b ! r) = k"
    and "\<And>x y. x \<in> set (bids b) \<Longrightarrow> y \<in> set (asks b) \<Longrightarrow>
           big_lt (price (objs b ! x)) (price (objs b ! y))"
  using assms unfolding inv_struct_def by blast+

lemma inv_structI:
  assumes "distinct (bids b)" and "distinct (asks b)"
    and "\<And>r. r \<in> set (bids b) \<Longrightarrow> r < length (objs b) \<and> bo_side (objs b ! r) = BUY"
    and "\<And>r. r \<in> set (asks b) \<Longrightarrow> r < length (objs b) \<and> bo_side (objs b ! r) = SELL"
    and "heap_ok (bids_compare (objs b)) (bids b)"
    and "heap_ok (asks_compare (objs b)) (asks b)"
    and "\<And>k r. idIndex b k = Some r \<Longrightarrow> r \<in> resting b \<and> bo_id (objs b ! r) = k"
    and "\<And>x y. x \<in> set (bids b) \<Longrightarrow> y \<in> set (asks b) \<Longrightarrow>
           big_lt (price (objs b ! x)) (price (objs b ! y))"
  shows "inv_struct b"
  using assms unfolding inv_struct_def by blast

lemma inv_struct_objs_cong:
  assumes s: "inv_struct b"
    and len: "length (objs b) \<le> length os'"
    and f: "\<And>r. r < length (objs b) \<Longrightarrow>
              bo_side (os' ! r) = bo_side (objs b ! r) \<and> bo_id (os' ! r) = bo_id (objs b ! r) \<and>
              price (os' ! r) = price (objs b ! r) \<and> ts (os' ! r) = ts (objs b ! r)"
    and h: "bids b' = bids b" "asks b' = asks b" "idIndex b' = idIndex b" "objs b' = os'"
  shows "inv_struct b'"
proof -
  note d = inv_structD[OF s]
  have hb: "heap_ok (bids_compare os') (bids b) = heap_ok (bids_compare (objs b)) (bids b)"
    by (rule heap_ok_cong, rule bids_compare_cong) (simp_all add: f d(3))
  have ha: "heap_ok (asks_compare os') (asks b) = heap_ok (asks_compare (objs b)) (asks b)"
    by (rule heap_ok_cong, rule asks_compare_cong) (simp_all add: f d(4))
  have r: "resting b' = resting b" by (simp add: resting_def h)
  show ?thesis
  proof (rule inv_structI)
    show "distinct (bids b')" "distinct (asks b')" using d(1,2) h by simp_all
    show "r \<in> set (bids b') \<Longrightarrow> r < length (objs b') \<and> bo_side (objs b' ! r) = BUY" for r
      using d(3)[of r] f[of r] len h by simp
    show "r \<in> set (asks b') \<Longrightarrow> r < length (objs b') \<and> bo_side (objs b' ! r) = SELL" for r
      using d(4)[of r] f[of r] len h by simp
    show "heap_ok (bids_compare (objs b')) (bids b')" using d(5) hb h by simp
    show "heap_ok (asks_compare (objs b')) (asks b')" using d(6) ha h by simp
    show "idIndex b' k = Some r \<Longrightarrow> r \<in> resting b' \<and> bo_id (objs b' ! r) = k" for k r
    proof -
      assume "idIndex b' k = Some r"
      then have a: "r \<in> resting b" "bo_id (objs b ! r) = k" using d(7)[of k r] h by simp_all
      from a(1) have "r < length (objs b)" using d(3)[of r] d(4)[of r] by (auto simp: resting_def)
      with a f[of r] r h show ?thesis by simp
    qed
    show "x \<in> set (bids b') \<Longrightarrow> y \<in> set (asks b') \<Longrightarrow>
          big_lt (price (objs b' ! x)) (price (objs b' ! y))" for x y
      using d(8)[of x y] d(3)[of x] d(4)[of y] f[of x] f[of y] h by simp
  qed
qed

lemma resting_valid: "inv_struct b \<Longrightarrow> r \<in> resting b \<Longrightarrow> r < length (objs b)"
  using inv_structD(3,4)[of b r] by (auto simp: resting_def)

lemma resting_side:
  assumes "inv_struct b" "r \<in> resting b"
  shows "bo_side (objs b ! r) = BUY \<Longrightarrow> r \<in> set (bids b)"
    and "bo_side (objs b ! r) = SELL \<Longrightarrow> r \<in> set (asks b)"
  using inv_structD(3,4)[OF assms(1), of r] assms(2) by (auto simp: resting_def)

lemma inv_struct_remove:
  assumes s: "inv_struct b" and r: "r \<in> resting b"
  shows "inv_struct (remove_order r b)"
    and "resting (remove_order r b) = resting b - {r}"
    and "objs (remove_order r b) = objs b"
    and "idIndex (remove_order r b) = (idIndex b)(bo_id (objs b ! r) := None)"
    and "trades (remove_order r b) = trades b"
    and "seq (remove_order r b) = seq b"
    and "ob_pair (remove_order r b) = ob_pair b"
proof -
  let ?b = "remove_order r b"
  note d = inv_structD[OF s]
  show o: "objs ?b = objs b" and "trades ?b = trades b" and "seq ?b = seq b"
    and "ob_pair ?b = ob_pair b"
    by (simp_all add: remove_order_def)
  show ix: "idIndex ?b = (idIndex b)(bo_id (objs b ! r) := None)"
    by (simp add: remove_order_def)
  have sets: "distinct (bids ?b) \<and> distinct (asks ?b) \<and>
              set (bids ?b) = set (bids b) - {r} \<and> set (asks ?b) = set (asks b) - {r} \<and>
              heap_ok (bids_compare (objs b)) (bids ?b) \<and> heap_ok (asks_compare (objs b)) (asks ?b)"
  proof (cases "bo_side (objs b ! r)")
    case BUY
    then have "r \<notin> set (asks b)" using d(4)[of r] by auto
    with BUY d(1,2,5,6) heap_remove_set[OF d(1), of "bids_compare (objs b)" r]
      heap_remove_heap[OF bids_compare_good d(5), of r]
    show ?thesis by (simp add: remove_order_BUY)
  next
    case SELL
    then have "r \<notin> set (bids b)" using d(3)[of r] by auto
    with SELL d(1,2,5,6) heap_remove_set[OF d(2), of "asks_compare (objs b)" r]
      heap_remove_heap[OF asks_compare_good d(6), of r]
    show ?thesis by (simp add: remove_order_SELL)
  qed
  then show rs: "resting ?b = resting b - {r}" by (auto simp: resting_def)
  show "inv_struct ?b"
  proof (rule inv_structI)
    show "distinct (bids ?b)" "distinct (asks ?b)" using sets by simp_all
    show "x \<in> set (bids ?b) \<Longrightarrow> x < length (objs ?b) \<and> bo_side (objs ?b ! x) = BUY" for x
      using sets d(3)[of x] o by simp
    show "x \<in> set (asks ?b) \<Longrightarrow> x < length (objs ?b) \<and> bo_side (objs ?b ! x) = SELL" for x
      using sets d(4)[of x] o by simp
    show "heap_ok (bids_compare (objs ?b)) (bids ?b)" "heap_ok (asks_compare (objs ?b)) (asks ?b)"
      using sets o by simp_all
    show "idIndex ?b k = Some r' \<Longrightarrow> r' \<in> resting ?b \<and> bo_id (objs ?b ! r') = k" for k r'
    proof -
      assume a: "idIndex ?b k = Some r'"
      then have k: "k \<noteq> bo_id (objs b ! r)" and "idIndex b k = Some r'"
        unfolding ix by (auto split: if_splits)
      with d(7)[of k r'] have "r' \<in> resting b" "bo_id (objs b ! r') = k" by simp_all
      with k show ?thesis unfolding rs o by auto
    qed
    show "x \<in> set (bids ?b) \<Longrightarrow> y \<in> set (asks ?b) \<Longrightarrow>
          big_lt (price (objs ?b ! x)) (price (objs ?b ! y))" for x y
      using sets d(8)[of x y] o by simp
  qed
qed

lemma fresh_match_wf:
  assumes s: "inv_struct b" and fr: "fresh i b"
  shows "match_wf i b"
  unfolding match_wf_def
proof (intro conjI ballI)
  show "i < length (objs b)" using fr by (simp add: fresh_def)
next
  fix r assume r: "r \<in> set (bookSide i b)"
  then have rr: "r \<in> resting b" by (auto simp: bookSide_def resting_def split: if_splits)
  show "r < length (objs b)" using resting_valid[OF s rr] .
  show "r \<noteq> i" using rr fr by (auto simp: fresh_def)
  show "bo_side (objs b ! r) \<noteq> bo_side (objs b ! i)"
    using r inv_structD(3,4)[OF s, of r] by (auto simp: bookSide_def split: if_splits)
qed

lemma tradeQty_le:
  "big_val (tradeQty i best b) \<le> big_val (remaining (objs b ! best))"
  "big_val (tradeQty i best b) \<le> big_val (remaining (objs b ! i))"
  by (simp_all add: tradeQty_val)

lemma book_inv_match_step:
  assumes inv: "book_inv b" and fr: "fresh i b" and nx: "match_next i b = Some best"
  shows "book_inv (match_step i best b) \<and> fresh i (match_step i best b)"
proof -
  from inv have s: "inv_struct b" and p: "inv_pos b" and t: "inv_ts b"
    by (simp_all add: book_inv_def)
  note wf = fresh_match_wf[OF s fr]
  note w = match_wf_best[OF wf nx]
  note u = match_step_unfold[OF w(3)[symmetric] w(4) w(2)]
  note fld = step_objs_fields[OF w(3)[symmetric]]
  let ?os = "step_objs i best b"
  let ?b3 = "b\<lparr>trades := trades b @ [make_trade i best b], objs := ?os\<rparr>"
  have s3: "inv_struct ?b3"
    by (rule inv_struct_objs_cong[OF s, where os' = ?os]) (simp_all add: fld)
  have r3: "resting ?b3 = resting b" by (simp add: resting_def)
  have br: "best \<in> resting b" using w(1) by (auto simp: bookSide_def resting_def split: if_splits)
  have other: "\<And>r. r \<in> resting b \<Longrightarrow> r \<noteq> best \<Longrightarrow> ?os ! r = objs b ! r"
  proof -
    fix r assume r: "r \<in> resting b" "r \<noteq> best"
    then have "r \<noteq> i" using fr by (auto simp: fresh_def)
    with r resting_valid[OF s r(1)] show "?os ! r = objs b ! r"
      using step_objs_nth[OF w(3)[symmetric], of r b] by simp
  qed
  have ts3: "length ?os = seq b \<and> (\<forall>r<length ?os. ts (?os ! r) = r)"
    using t fld(4) by (simp add: inv_ts_def)
  show ?thesis
  proof (cases "big_eq (remaining (?os ! best)) big_zero")
    case True
    then have m: "match_step i best b = remove_order best ?b3" unfolding u by simp
    have b3r: "best \<in> resting ?b3" using br r3 by simp
    note rm = inv_struct_remove[OF s3 b3r]
    have "inv_pos (remove_order best ?b3)"
      unfolding inv_pos_def rm(2,3) r3 using p other by (simp add: inv_pos_def)
    moreover have "inv_ts (remove_order best ?b3)"
      unfolding inv_ts_def rm(3,6) using ts3 by simp
    moreover have "fresh i (remove_order best ?b3)"
      unfolding fresh_def rm(2,3) r3 using fr by (simp add: fresh_def)
    ultimately show ?thesis unfolding m book_inv_def using rm(1) by simp
  next
    case False
    then have m: "match_step i best b = ?b3" unfolding u by simp
    have bv: "big_val (remaining (?os ! best)) =
              big_val (remaining (objs b ! best)) - big_val (tradeQty i best b)"
      using step_objs_nth[OF w(3)[symmetric] w(2)] by (simp add: big_minus_val)
    with False tradeQty_le(1)[of i best b] have "big_gt (remaining (?os ! best)) big_zero"
      by (simp add: big_eq_val big_gt_val)
    have "inv_pos ?b3"
      unfolding inv_pos_def r3
    proof
      fix r assume r: "r \<in> resting b"
      show "big_gt (remaining (objs ?b3 ! r)) big_zero"
      proof (cases "r = best")
        case True
        with \<open>big_gt (remaining (?os ! best)) big_zero\<close> show ?thesis by simp
      next
        case False
        with other[OF r] p r show ?thesis by (simp add: inv_pos_def)
      qed
    qed
    moreover have "inv_ts ?b3" unfolding inv_ts_def using ts3 by simp
    moreover have "fresh i ?b3" unfolding fresh_def r3 using fr by (simp add: fresh_def)
    ultimately show ?thesis unfolding m book_inv_def using s3 by simp
  qed
qed

lemma add_BUY:
  "bo_side (objs b ! i) = BUY \<Longrightarrow>
   add i b = b\<lparr>idIndex := (idIndex b)(bo_id (objs b ! i) \<mapsto> i),
              bids := heap_push (bids_compare (objs b)) (bids b) i\<rparr>"
  by (simp add: add_def Let_def)

lemma add_SELL:
  "bo_side (objs b ! i) = SELL \<Longrightarrow>
   add i b = b\<lparr>idIndex := (idIndex b)(bo_id (objs b ! i) \<mapsto> i),
              asks := heap_push (asks_compare (objs b)) (asks b) i\<rparr>"
  by (simp add: add_def Let_def)

lemma match_next_None:
  assumes "match_next i b = None" "big_gt (remaining (objs b ! i)) big_zero"
    "y \<in> set (bookSide i b)"
  shows "\<exists>best. heap_peek (bookSide i b) = Some best \<and> \<not> priceOK i best b"
proof -
  from assms(3) obtain x xs where "bookSide i b = x # xs" by (cases "bookSide i b") auto
  with assms(1,2) show ?thesis
    by (auto simp: match_next_def heap_peek_def split: if_splits)
qed

lemma no_cross_BUY:
  assumes s: "inv_struct b" and sd: "bo_side (objs b ! i) = BUY"
    and nx: "match_next i b = None" and pos: "big_gt (remaining (objs b ! i)) big_zero"
    and y: "y \<in> set (asks b)"
  shows "big_lt (price (objs b ! i)) (price (objs b ! y))"
proof -
  have bs: "bookSide i b = asks b" using sd by (simp add: bookSide_def)
  from match_next_None[OF nx pos, of y] y bs
  obtain best where pk: "heap_peek (asks b) = Some best" and np: "\<not> priceOK i best b" by auto
  from np sd have a: "big_val (price (objs b ! i)) < big_val (price (objs b ! best))"
    by (simp add: priceOK_def big_gte_val)
  from heap_peek_le[OF asks_compare_good inv_structD(6)[OF s] pk y]
  have "big_val (price (objs b ! best)) \<le> big_val (price (objs b ! y))"
    unfolding asks_compare_le by auto
  with a show ?thesis by (simp add: big_lt_val)
qed

lemma no_cross_SELL:
  assumes s: "inv_struct b" and sd: "bo_side (objs b ! i) = SELL"
    and nx: "match_next i b = None" and pos: "big_gt (remaining (objs b ! i)) big_zero"
    and y: "y \<in> set (bids b)"
  shows "big_lt (price (objs b ! y)) (price (objs b ! i))"
proof -
  have bs: "bookSide i b = bids b" using sd by (simp add: bookSide_def)
  from match_next_None[OF nx pos, of y] y bs
  obtain best where pk: "heap_peek (bids b) = Some best" and np: "\<not> priceOK i best b" by auto
  from np sd have a: "big_val (price (objs b ! best)) < big_val (price (objs b ! i))"
    by (simp add: priceOK_def big_lte_val)
  from heap_peek_le[OF bids_compare_good inv_structD(5)[OF s] pk y]
  have "big_val (price (objs b ! y)) \<le> big_val (price (objs b ! best))"
    unfolding bids_compare_le by auto
  with a show ?thesis by (simp add: big_lt_val)
qed

lemma book_inv_add:
  assumes inv: "book_inv b" and fr: "fresh i b"
    and nx: "match_next i b = None" and pos: "big_gt (remaining (objs b ! i)) big_zero"
  shows "book_inv (add i b)"
    and "resting (add i b) = insert i (resting b)"
    and "objs (add i b) = objs b"
    and "idIndex (add i b) = (idIndex b)(bo_id (objs b ! i) \<mapsto> i)"
    and "trades (add i b) = trades b"
    and "seq (add i b) = seq b"
proof -
  from inv have s: "inv_struct b" and p: "inv_pos b" and t: "inv_ts b"
    by (simp_all add: book_inv_def)
  note d = inv_structD[OF s]
  from fr have il: "i < length (objs b)" and ib: "i \<notin> set (bids b)" and ia: "i \<notin> set (asks b)"
    by (simp_all add: fresh_def resting_def)
  let ?b = "add i b"
  show o: "objs ?b = objs b" and "trades ?b = trades b" and sq: "seq ?b = seq b"
    by (simp_all add: add_def Let_def)
  show ix: "idIndex ?b = (idIndex b)(bo_id (objs b ! i) \<mapsto> i)"
    by (simp add: add_def Let_def)
  have sets: "distinct (bids ?b) \<and> distinct (asks ?b) \<and>
      set (bids ?b) = (if bo_side (objs b ! i) = BUY then insert i (set (bids b)) else set (bids b)) \<and>
      set (asks ?b) = (if bo_side (objs b ! i) = BUY then set (asks b) else insert i (set (asks b))) \<and>
      heap_ok (bids_compare (objs b)) (bids ?b) \<and> heap_ok (asks_compare (objs b)) (asks ?b)"
  proof (cases "bo_side (objs b ! i)")
    case BUY
    with d(1,2,5,6) heap_push_distinct[OF d(1) ib, of "bids_compare (objs b)"]
      heap_push_heap[OF bids_compare_good d(5), of i]
    show ?thesis by (simp add: add_BUY heap_push_set)
  next
    case SELL
    with d(1,2,5,6) heap_push_distinct[OF d(2) ia, of "asks_compare (objs b)"]
      heap_push_heap[OF asks_compare_good d(6), of i]
    show ?thesis by (simp add: add_SELL heap_push_set)
  qed
  then show rs: "resting ?b = insert i (resting b)" by (auto simp: resting_def)
  have st: "inv_struct ?b"
  proof (rule inv_structI)
    show "distinct (bids ?b)" "distinct (asks ?b)" using sets by simp_all
    show "x \<in> set (bids ?b) \<Longrightarrow> x < length (objs ?b) \<and> bo_side (objs ?b ! x) = BUY" for x
      using sets d(3)[of x] o il by (auto split: if_splits)
    show "x \<in> set (asks ?b) \<Longrightarrow> x < length (objs ?b) \<and> bo_side (objs ?b ! x) = SELL" for x
      using sets d(4)[of x] o il by (auto split: if_splits simp: side_neq_BUY)
    show "heap_ok (bids_compare (objs ?b)) (bids ?b)" "heap_ok (asks_compare (objs ?b)) (asks ?b)"
      using sets o by simp_all
    show "idIndex ?b k = Some r \<Longrightarrow> r \<in> resting ?b \<and> bo_id (objs ?b ! r) = k" for k r
      unfolding ix rs o using d(7)[of k r] by (auto split: if_splits)
    show "x \<in> set (bids ?b) \<Longrightarrow> y \<in> set (asks ?b) \<Longrightarrow>
          big_lt (price (objs ?b ! x)) (price (objs ?b ! y))" for x y
    proof -
      assume x: "x \<in> set (bids ?b)" and y: "y \<in> set (asks ?b)"
      show ?thesis
      proof (cases "bo_side (objs b ! i)")
        case BUY
        with sets y have ya: "y \<in> set (asks b)" by simp
        from BUY sets x have "x = i \<or> x \<in> set (bids b)" by simp
        then show ?thesis
          using no_cross_BUY[OF s BUY nx pos ya] d(8)[of x y] ya o by auto
      next
        case SELL
        with sets x have xb: "x \<in> set (bids b)" by simp
        from SELL sets y have "y = i \<or> y \<in> set (asks b)" by simp
        then show ?thesis
          using no_cross_SELL[OF s SELL nx pos xb] d(8)[of x y] xb o by auto
      qed
    qed
  qed
  have "inv_pos ?b" unfolding inv_pos_def rs o using p pos by (simp add: inv_pos_def)
  moreover have "inv_ts ?b" unfolding inv_ts_def o sq using t by (simp add: inv_ts_def)
  ultimately show "book_inv ?b" using st by (simp add: book_inv_def)
qed

lemma book_inv_new: "book_inv (newOrderBook p)"
  by (simp add: book_inv_def inv_struct_def inv_pos_def inv_ts_def newOrderBook_def resting_def
        heap_ok_def)

lemma book_inv_alloc:
  assumes inv: "book_inv b" and ts: "ts order = seq b"
  shows "book_inv (b\<lparr>seq := seq b + 1, objs := objs b @ [order]\<rparr>)"
    and "fresh (length (objs b)) (b\<lparr>seq := seq b + 1, objs := objs b @ [order]\<rparr>)"
proof -
  from inv have s: "inv_struct b" and p: "inv_pos b" and t: "inv_ts b"
    by (simp_all add: book_inv_def)
  let ?b = "b\<lparr>seq := seq b + 1, objs := objs b @ [order]\<rparr>"
  have st: "inv_struct ?b"
    by (rule inv_struct_objs_cong[OF s, where os' = "objs b @ [order]"])
       (simp_all add: nth_append)
  have r: "resting ?b = resting b" by (simp add: resting_def)
  have "inv_pos ?b"
    unfolding inv_pos_def r using p resting_valid[OF s]
    by (simp add: inv_pos_def nth_append)
  moreover have "inv_ts ?b"
    using t ts by (auto simp: inv_ts_def nth_append less_Suc_eq)
  ultimately show "book_inv ?b" using st by (simp add: book_inv_def)
  show "fresh (length (objs b)) ?b"
    unfolding fresh_def r using resting_valid[OF s, of "length (objs b)"] by auto
qed

lemma match_book_inv:
  assumes "book_inv b" "fresh i b"
  shows "\<exists>b'. match i b = Some b' \<and> book_inv b' \<and> fresh i b' \<and> match_next i b' = None"
proof -
  have wf: "match_wf i b" using assms fresh_match_wf by (simp add: book_inv_def)
  from match_rule[where P = "\<lambda>b. book_inv b \<and> fresh i b", OF wf]
    assms book_inv_match_step
  show ?thesis by blast
qed

lemma create_book_inv:
  assumes inv: "book_inv b" and ts: "ts order = seq b"
  shows "\<exists>b'. create order b = Some b' \<and> book_inv b'"
proof -
  let ?i = "length (objs b)"
  let ?b1 = "b\<lparr>seq := seq b + 1, objs := objs b @ [order]\<rparr>"
  from match_book_inv[OF book_inv_alloc[OF inv ts]]
  obtain b2 where m: "match ?i ?b1 = Some b2" and i2: "book_inv b2" and f2: "fresh ?i b2"
    and n2: "match_next ?i b2 = None" by blast
  show ?thesis
  proof (cases "big_gt (remaining (objs b2 ! ?i)) big_zero")
    case True
    with m book_inv_add(1)[OF i2 f2 n2 True] show ?thesis by (simp add: create_def Let_def)
  next
    case False
    with m i2 show ?thesis by (simp add: create_def Let_def)
  qed
qed

lemma process_book_inv:
  assumes inv: "book_inv b"
  shows "\<exists>res. process raw b = Some res \<and> (\<forall>b'. res = Inr b' \<longrightarrow> book_inv b')"
proof (cases "type_op raw = DELETE")
  case True
  show ?thesis
  proof (cases "idIndex b (order_id raw)")
    case None
    with True inv show ?thesis by (simp add: process_def)
  next
    case (Some found)
    from inv have s: "inv_struct b" and p: "inv_pos b" and t: "inv_ts b"
      by (simp_all add: book_inv_def)
    from inv_structD(7)[OF s Some] have fr: "found \<in> resting b" by simp
    note rm = inv_struct_remove[OF s fr]
    have "inv_pos (remove_order found b)"
      unfolding inv_pos_def rm(2,3) using p by (simp add: inv_pos_def)
    moreover have "inv_ts (remove_order found b)"
      unfolding inv_ts_def rm(3,6) using t by (simp add: inv_ts_def)
    ultimately have "book_inv (remove_order found b)" using rm(1) by (simp add: book_inv_def)
    with True Some show ?thesis by (simp add: process_def)
  qed
next
  case False
  show ?thesis
  proof (cases "big_parse (limit_price raw)")
    case None
    with False show ?thesis by (simp add: process_def)
  next
    case (Some p)
    show ?thesis
    proof (cases "big_parse (amount raw)")
      case None
      with False Some show ?thesis by (simp add: process_def)
    next
      case (Some a)
      have "ts (new_order raw p a (seq b)) = seq b" by (simp add: new_order_def)
      from create_book_inv[OF inv this] obtain b' where
        "create (new_order raw p a (seq b)) b = Some b'" "book_inv b'" by blast
      with False \<open>big_parse (limit_price raw) = Some p\<close> Some show ?thesis
        by (simp add: process_def)
    qed
  qed
qed

lemma process_all_book_inv:
  "book_inv b \<Longrightarrow>
   \<exists>res. process_all raws b = Some res \<and> (\<forall>b'. res = Inr b' \<longrightarrow> book_inv b')"
proof (induction raws arbitrary: b)
  case Nil
  then show ?case by simp
next
  case (Cons raw raws)
  from process_book_inv[OF Cons.prems, of raw] obtain res where
    r: "process raw b = Some res" "\<forall>b'. res = Inr b' \<longrightarrow> book_inv b'" by blast
  show ?case
  proof (cases res)
    case (Inl e)
    with r show ?thesis by simp
  next
    case (Inr b1)
    with r Cons.IH[of b1] show ?thesis by simp
  qed
qed

section \<open>The engine routes commands to books\<close>

lemma ingest_Inr:
  assumes "ingest raw e = Some (Inr e')"
  shows "process raw (book_of e (pair raw)) = Some (Inr (book_of e' (pair raw)))"
    and "map_of (books e') (pair raw) = Some (book_of e' (pair raw))"
    and "\<And>p. p \<noteq> pair raw \<Longrightarrow> map_of (books e') p = map_of (books e) p"
    and "distinct (map fst (books e)) \<Longrightarrow> distinct (map fst (books e'))"
proof -
  let ?p = "pair raw"
  obtain book e1 where bf: "bookFor ?p e = (book, e1)" by (cases "bookFor ?p e")
  have b: "book = book_of e ?p"
    using bf by (auto simp: bookFor_def book_of_def split: option.splits)
  have m1: "\<And>p. p \<noteq> ?p \<Longrightarrow> map_of (books e1) p = map_of (books e) p"
    using bf by (auto simp: bookFor_def map_add_def split: option.splits)
  have d1: "distinct (map fst (books e)) \<Longrightarrow> distinct (map fst (books e1))"
    using bf by (auto simp: bookFor_def map_of_eq_None_iff split: option.splits)
  from assms bf obtain book' where
    pr: "process raw book = Some (Inr book')"
    and e': "e' = e1\<lparr>books := AList.update ?p book' (books e1)\<rparr>"
    by (auto simp: ingest_def split: option.splits sum.splits)
  have m: "map_of (books e') ?p = Some book'" unfolding e' by (simp add: update_conv')
  then have bo: "book_of e' ?p = book'" by (simp add: book_of_def)
  show "process raw (book_of e ?p) = Some (Inr (book_of e' ?p))" using pr b bo by simp
  show "map_of (books e') ?p = Some (book_of e' ?p)" using m bo by simp
  show "\<And>p. p \<noteq> ?p \<Longrightarrow> map_of (books e') p = map_of (books e) p"
    unfolding e' using m1 by (simp add: update_conv')
  show "distinct (map fst (books e)) \<Longrightarrow> distinct (map fst (books e'))"
    unfolding e' using d1 by (simp add: distinct_update)
qed

lemma ingest_all_route:
  "ingest_all raws e = Some (Inr e') \<Longrightarrow> map_of (books e') p = Some b \<Longrightarrow>
   process_all (for_pair p raws) (book_of e p) = Some (Inr b)"
proof (induction raws arbitrary: e)
  case Nil
  then show ?case by (simp add: for_pair_def book_of_def)
next
  case (Cons raw raws)
  from Cons.prems(1) obtain e1 where i1: "ingest raw e = Some (Inr e1)"
    and r: "ingest_all raws e1 = Some (Inr e')"
    by (auto split: option.splits sum.splits)
  note g = ingest_Inr[OF i1]
  from Cons.IH[OF r Cons.prems(2)]
  have ih: "process_all (for_pair p raws) (book_of e1 p) = Some (Inr b)" .
  show ?case
  proof (cases "pair raw = p")
    case True
    with g(1) ih show ?thesis by (simp add: for_pair_def)
  next
    case False
    then have "book_of e1 p = book_of e p" using g(3)[of p] by (simp add: book_of_def)
    with False ih show ?thesis by (simp add: for_pair_def)
  qed
qed

lemma ingest_all_distinct:
  "ingest_all raws e = Some (Inr e') \<Longrightarrow> distinct (map fst (books e)) \<Longrightarrow>
   distinct (map fst (books e'))"
proof (induction raws arbitrary: e)
  case Nil
  then show ?case by simp
next
  case (Cons raw raws)
  from Cons.prems(1) obtain e1 where i1: "ingest raw e = Some (Inr e1)"
    and r: "ingest_all raws e1 = Some (Inr e')"
    by (auto split: option.splits sum.splits)
  from Cons.IH[OF r ingest_Inr(4)[OF i1 Cons.prems(2)]] show ?case .
qed

lemma book_of_new [simp]: "book_of newMatcherEngine p = newOrderBook p"
  by (simp add: book_of_def newMatcherEngine_def)

lemma ingest_all_books:
  assumes "ingest_all raws newMatcherEngine = Some (Inr e)" and "(p, b) \<in> set (books e)"
  shows "process_all (for_pair p raws) (newOrderBook p) = Some (Inr b)"
proof -
  have "distinct (map fst (books e))"
    using ingest_all_distinct[OF assms(1)] by (simp add: newMatcherEngine_def)
  with assms(2) have "map_of (books e) p = Some b" by simp
  from ingest_all_route[OF assms(1) this] show ?thesis by simp
qed

lemma ingest_all_book_of:
  "ingest_all raws e = Some (Inr e') \<Longrightarrow>
   process_all (for_pair p raws) (book_of e p) = Some (Inr (book_of e' p))"
proof (induction raws arbitrary: e)
  case Nil
  then show ?case by (simp add: for_pair_def)
next
  case (Cons raw raws)
  from Cons.prems(1) obtain e1 where i1: "ingest raw e = Some (Inr e1)"
    and r: "ingest_all raws e1 = Some (Inr e')"
    by (auto simp: deleted.simps(2) split: option.splits sum.splits)
  note g = ingest_Inr[OF i1]
  from Cons.IH[OF r]
  have ih: "process_all (for_pair p raws) (book_of e1 p) = Some (Inr (book_of e' p))" .
  show ?case
  proof (cases "pair raw = p")
    case True
    with g(1) ih show ?thesis by (simp add: for_pair_def)
  next
    case False
    then have "book_of e1 p = book_of e p" using g(3)[of p] by (simp add: book_of_def)
    with False ih show ?thesis by (simp add: for_pair_def)
  qed
qed

lemma ingest_process:
  assumes "process raw (book_of e (pair raw)) = Some (Inr b')"
  shows "\<exists>e'. ingest raw e = Some (Inr e') \<and> book_of e' (pair raw) = b'"
proof -
  let ?p = "pair raw"
  obtain book e1 where bf: "bookFor ?p e = (book, e1)" by (cases "bookFor ?p e")
  have b: "book = book_of e ?p"
    using bf by (auto simp: bookFor_def book_of_def split: option.splits)
  let ?e = "e1\<lparr>books := AList.update ?p b' (books e1)\<rparr>"
  from assms bf b have i: "ingest raw e = Some (Inr ?e)" by (simp add: ingest_def)
  from ingest_Inr(1)[OF i] assms have "book_of ?e ?p = b'" by simp
  with i show ?thesis by blast
qed

lemma for_pair_snoc: "for_pair (pair raw) (pre @ [raw]) = for_pair (pair raw) pre @ [raw]"
  by (simp add: for_pair_def)

lemma ingest_total:
  assumes "eng_inv e"
  shows "\<exists>res. ingest raw e = Some res \<and> (\<forall>e'. res = Inr e' \<longrightarrow> eng_inv e')"
proof -
  let ?p = "pair raw"
  obtain book e1 where bf: "bookFor ?p e = (book, e1)" by (cases "bookFor ?p e")
  have b: "book = book_of e ?p"
    using bf by (auto simp: bookFor_def book_of_def split: option.splits)
  from process_book_inv[of "book_of e ?p" raw] assms obtain res where
    r: "process raw book = Some res" "\<forall>b'. res = Inr b' \<longrightarrow> book_inv b'"
    unfolding b eng_inv_def by blast
  show ?thesis
  proof (cases res)
    case (Inl err)
    with r bf show ?thesis by (simp add: ingest_def)
  next
    case (Inr book')
    let ?e = "e1\<lparr>books := AList.update ?p book' (books e1)\<rparr>"
    from Inr r bf have i: "ingest raw e = Some (Inr ?e)" by (simp add: ingest_def)
    note g = ingest_Inr[OF i]
    have "eng_inv ?e"
      unfolding eng_inv_def
    proof
      fix p show "book_inv (book_of ?e p)"
      proof (cases "p = ?p")
        case True
        have "book_of ?e ?p = book'" by (simp add: book_of_def update_conv')
        with True r(2) Inr show ?thesis by simp
      next
        case False
        then have "book_of ?e p = book_of e p" using g(3)[of p] by (simp add: book_of_def)
        with assms show ?thesis by (simp add: eng_inv_def)
      qed
    qed
    with i show ?thesis by simp
  qed
qed

lemma ingest_all_total:
  "eng_inv e \<Longrightarrow> \<exists>res. ingest_all raws e = Some res \<and> (\<forall>e'. res = Inr e' \<longrightarrow> eng_inv e')"
proof (induction raws arbitrary: e)
  case Nil
  then show ?case by simp
next
  case (Cons raw raws)
  from ingest_total[OF Cons.prems, of raw] obtain res where
    r: "ingest raw e = Some res" "\<forall>e'. res = Inr e' \<longrightarrow> eng_inv e'" by blast
  show ?case
  proof (cases res)
    case (Inl err)
    with r show ?thesis by simp
  next
    case (Inr e1)
    with r Cons.IH[of e1] show ?thesis by simp
  qed
qed

lemma eng_inv_new: "eng_inv newMatcherEngine"
  by (simp add: eng_inv_def book_inv_new)

lemma eng_inv_book:
  assumes "eng_inv e" "(p, b) \<in> set (books e)" "distinct (map fst (books e))"
  shows "book_inv b"
proof -
  from assms(2,3) have "map_of (books e) p = Some b" by simp
  then have "book_of e p = b" by (simp add: book_of_def)
  with assms(1) show ?thesis by (auto simp: eng_inv_def)
qed

section \<open>The CREATE branch\<close>

lemma match_step_summary:
  assumes "book_inv b" and "fresh i b" and "match_next i b = Some best"
  shows "objs (match_step i best b) = step_objs i best b"
    and "resting (match_step i best b) =
           (if big_eq (remaining (step_objs i best b ! best)) big_zero
            then resting b - {best} else resting b)"
    and "idIndex (match_step i best b) =
           (if big_eq (remaining (step_objs i best b ! best)) big_zero
            then (idIndex b)(bo_id (objs b ! best) := None) else idIndex b)"
    and "trades (match_step i best b) = trades b @ [make_trade i best b]"
    and "seq (match_step i best b) = seq b"
    and "ob_pair (match_step i best b) = ob_pair b"
    and "best \<in> resting b" and "best \<noteq> i" and "best < length (objs b)"
    and "i < length (objs b)"
proof -
  from assms(1) have s: "inv_struct b" by (simp add: book_inv_def)
  note wf = fresh_match_wf[OF s assms(2)]
  note w = match_wf_best[OF wf assms(3)]
  note u = match_step_unfold[OF w(3)[symmetric] w(4) w(2)]
  note fld = step_objs_fields[OF w(3)[symmetric]]
  let ?os = "step_objs i best b"
  let ?b3 = "b\<lparr>trades := trades b @ [make_trade i best b], objs := ?os\<rparr>"
  have s3: "inv_struct ?b3"
    by (rule inv_struct_objs_cong[OF s, where os' = ?os]) (simp_all add: fld)
  have r3: "resting ?b3 = resting b" by (simp add: resting_def)
  show br0: "best \<in> resting b"
    using w(1) by (auto simp: bookSide_def resting_def split: if_splits)
  then have br: "best \<in> resting ?b3" using r3 by simp
  note rm = inv_struct_remove[OF s3 br]
  show "best \<noteq> i" "best < length (objs b)" "i < length (objs b)" using w by simp_all
  show "objs (match_step i best b) = ?os" using match_step_bookSide(4)[OF wf assms(3)] .
  show "resting (match_step i best b) =
           (if big_eq (remaining (?os ! best)) big_zero then resting b - {best} else resting b)"
    using rm(2) r3 by (simp add: u)
  show "idIndex (match_step i best b) =
           (if big_eq (remaining (?os ! best)) big_zero
            then (idIndex b)(bo_id (objs b ! best) := None) else idIndex b)"
    using rm(4) fld(2)[OF w(2)] by (simp add: u)
  show "trades (match_step i best b) = trades b @ [make_trade i best b]"
    using rm(5) by (simp add: u)
  show "seq (match_step i best b) = seq b" using rm(6) by (simp add: u)
  show "ob_pair (match_step i best b) = ob_pair b" using rm(7) by (simp add: u)
qed

lemma create_rule:
  assumes inv: "book_inv b" and ts: "ts order = seq b"
    and P0: "P (b\<lparr>seq := seq b + 1, objs := objs b @ [order]\<rparr>)"
    and step: "\<And>b' best. book_inv b' \<Longrightarrow> fresh (length (objs b)) b' \<Longrightarrow> P b' \<Longrightarrow>
                 match_next (length (objs b)) b' = Some best \<Longrightarrow>
                 P (match_step (length (objs b)) best b')"
  shows "\<exists>b2. create order b =
               Some (if big_gt (remaining (objs b2 ! length (objs b))) big_zero
                     then add (length (objs b)) b2 else b2) \<and>
              book_inv b2 \<and> fresh (length (objs b)) b2 \<and>
              match_next (length (objs b)) b2 = None \<and> P b2"
proof -
  let ?i = "length (objs b)"
  let ?b1 = "b\<lparr>seq := seq b + 1, objs := objs b @ [order]\<rparr>"
  note a = book_inv_alloc[OF inv ts]
  have wf: "match_wf ?i ?b1" using a fresh_match_wf by (simp add: book_inv_def)
  have "\<exists>b'. match ?i ?b1 = Some b' \<and> (book_inv b' \<and> fresh ?i b' \<and> P b') \<and>
             match_wf ?i b' \<and> match_next ?i b' = None"
  proof (rule match_rule[where P = "\<lambda>b'. book_inv b' \<and> fresh ?i b' \<and> P b'", OF wf])
    show "book_inv ?b1 \<and> fresh ?i ?b1 \<and> P ?b1" using a P0 by simp
  next
    fix b' best
    assume "book_inv b' \<and> fresh ?i b' \<and> P b'" "match_next ?i b' = Some best"
    with book_inv_match_step[of b' ?i best] step[of b' best]
    show "book_inv (match_step ?i best b') \<and> fresh ?i (match_step ?i best b') \<and>
          P (match_step ?i best b')" by blast
  qed
  then obtain b2 where m: "match ?i ?b1 = Some b2" and r: "book_inv b2" "fresh ?i b2" "P b2"
    "match_next ?i b2 = None" by blast
  from m have "create order b =
      Some (if big_gt (remaining (objs b2 ! ?i)) big_zero then add ?i b2 else b2)"
    by (simp add: create_def Let_def)
  with r show ?thesis by blast
qed

lemma process_CREATE:
  assumes "type_op raw = CREATE" "big_parse (limit_price raw) = Some p"
    "big_parse (amount raw) = Some a"
  shows "process raw b = map_option Inr (create (new_order raw p a (seq b)) b)"
  using assms by (simp add: process_def)

lemma match_steps_rule:
  assumes step: "\<And>b' best. book_inv b' \<Longrightarrow> fresh i b' \<Longrightarrow> P b' \<Longrightarrow>
                   match_next i b' = Some best \<Longrightarrow> P (match_step i best b')"
  shows "book_inv b \<Longrightarrow> fresh i b \<Longrightarrow> P b \<Longrightarrow>
         book_inv (match_steps n i b) \<and> fresh i (match_steps n i b) \<and> P (match_steps n i b)"
proof (induction n arbitrary: b)
  case 0
  then show ?case by simp
next
  case (Suc n)
  show ?case
  proof (cases "match_next i b")
    case None
    with Suc.prems show ?thesis by simp
  next
    case (Some best)
    from book_inv_match_step[OF Suc.prems(1,2) Some]
    have "book_inv (match_step i best b)" "fresh i (match_step i best b)" by simp_all
    from Suc.IH[OF this step[OF Suc.prems Some]] Some show ?thesis by simp
  qed
qed

lemma keeps_init:
  assumes inv: "book_inv b"
  shows "keeps b (remaining order) (length (objs b))
           (b\<lparr>seq := seq b + 1, objs := objs b @ [order]\<rparr>)"
  by (simp add: keeps_def resting_def nth_append)

lemma keeps_step:
  assumes inv: "book_inv b" and i: "i = length (objs b)"
    and h: "book_inv b'" "fresh i b'" "match_next i b' = Some best"
    and k: "keeps b am i b'"
  shows "keeps b am i (match_step i best b')"
proof -
  note m = match_step_summary[OF h]
  from inv have s: "inv_struct b" by (simp add: book_inv_def)
  from k have len: "length (objs b') = Suc i" and sub: "resting b' \<subseteq> resting b"
    and rs: "\<And>r. r \<in> resting b \<Longrightarrow> r \<in> resting b' \<or> big_eq (remaining (objs b' ! r)) big_zero"
    and un: "\<And>r. r < i \<Longrightarrow> r \<notin> resting b \<Longrightarrow> remaining (objs b' ! r) = remaining (objs b ! r)"
    and nn: "remaining (objs b' ! i) = am \<or> 0 \<le> big_val (remaining (objs b' ! i))"
    unfolding keeps_def by blast+
  let ?b = "match_step i best b'"
  have il: "i < length (objs b')" using len by simp
  show ?thesis
    unfolding keeps_def
  proof (intro conjI ballI allI impI)
    show "length (objs ?b) = Suc i" using m(1) len by simp
    show "resting ?b \<subseteq> resting b" unfolding m(2) using sub by auto
  next
    fix r assume r: "r \<in> resting b"
    then have rl: "r < i" using resting_valid[OF s] i by simp
    with len have rl': "r < length (objs b')" by simp
    note c = rs[OF r]
    show "r \<in> resting ?b \<or> big_eq (remaining (objs ?b ! r)) big_zero"
    proof (cases "r = best")
      case True
      then show ?thesis unfolding m(1,2) using c m(7) by (auto split: if_splits)
    next
      case False
      then have "step_objs i best b' ! r = objs b' ! r"
        using step_objs_nth[OF m(8)[symmetric] rl'] rl by simp
      with False c show ?thesis unfolding m(1,2) by auto
    qed
  next
    fix r assume r: "r < i" "r \<notin> resting b"
    with sub m(7) have "r \<noteq> best" by auto
    moreover from r len have "r < length (objs b')" by simp
    ultimately have "step_objs i best b' ! r = objs b' ! r"
      using step_objs_nth[OF m(8)[symmetric]] r(1) by simp
    with un[OF r] show "remaining (objs ?b ! r) = remaining (objs b ! r)" unfolding m(1) by simp
  next
    have "remaining (step_objs i best b' ! i) =
          big_minus (remaining (objs b' ! i)) (tradeQty i best b')"
      using step_objs_nth[OF m(8)[symmetric] il] m(8) by simp
    then have "0 \<le> big_val (remaining (objs ?b ! i))"
      unfolding m(1) using tradeQty_le(2)[of i best b'] by (simp add: big_minus_val)
    then show "remaining (objs ?b ! i) = am \<or> 0 \<le> big_val (remaining (objs ?b ! i))" by simp
  qed
qed

lemma create_keeps:
  assumes inv: "book_inv b" and ts: "ts order = seq b"
  shows "\<exists>b'. create order b = Some b' \<and> length (objs b') = Suc (length (objs b)) \<and>
           (\<forall>r\<in>resting b. r \<in> resting b' \<or> big_eq (remaining (objs b' ! r)) big_zero) \<and>
           (\<forall>r<length (objs b). r \<notin> resting b \<longrightarrow>
              r \<notin> resting b' \<and> remaining (objs b' ! r) = remaining (objs b ! r)) \<and>
           (length (objs b) \<in> resting b' \<or>
            big_eq (remaining (objs b' ! length (objs b))) big_zero \<or>
            big_lt (remaining order) big_zero)"
proof -
  let ?i = "length (objs b)"
  let ?b1 = "b\<lparr>seq := seq b + 1, objs := objs b @ [order]\<rparr>"
  let ?P = "keeps b (remaining order) ?i"
  from inv have s: "inv_struct b" by (simp add: book_inv_def)
  have "\<exists>b2. create order b =
               Some (if big_gt (remaining (objs b2 ! ?i)) big_zero then add ?i b2 else b2) \<and>
              book_inv b2 \<and> fresh ?i b2 \<and> match_next ?i b2 = None \<and> ?P b2"
  proof (rule create_rule[OF inv ts, where P = ?P])
    show "?P ?b1" by (rule keeps_init[OF inv])
  next
    fix b' best
    assume "book_inv b'" "fresh ?i b'" "?P b'" "match_next ?i b' = Some best"
    then show "?P (match_step ?i best b')" using keeps_step[OF inv refl] by blast
  qed
  then obtain b2 where cr: "create order b =
               Some (if big_gt (remaining (objs b2 ! ?i)) big_zero then add ?i b2 else b2)"
    and i2: "book_inv b2" and f2: "fresh ?i b2" and n2: "match_next ?i b2 = None"
    and P2: "?P b2" by blast
  from P2 have len: "length (objs b2) = Suc ?i" and sub: "resting b2 \<subseteq> resting b"
    and rs: "\<And>r. r \<in> resting b \<Longrightarrow> r \<in> resting b2 \<or> big_eq (remaining (objs b2 ! r)) big_zero"
    and un: "\<And>r. r < ?i \<Longrightarrow> r \<notin> resting b \<Longrightarrow> remaining (objs b2 ! r) = remaining (objs b ! r)"
    and nn: "remaining (objs b2 ! ?i) = remaining order \<or> 0 \<le> big_val (remaining (objs b2 ! ?i))"
    unfolding keeps_def by blast+
  show ?thesis
  proof (cases "big_gt (remaining (objs b2 ! ?i)) big_zero")
    case True
    note ad = book_inv_add[OF i2 f2 n2 True]
    from True cr have c: "create order b = Some (add ?i b2)" by simp
    show ?thesis
    proof (intro exI conjI ballI allI impI)
      show "create order b = Some (add ?i b2)" by fact
      show "length (objs (add ?i b2)) = Suc ?i" using ad(3) len by simp
      show "?i \<in> resting (add ?i b2) \<or> big_eq (remaining (objs (add ?i b2) ! ?i)) big_zero \<or>
            big_lt (remaining order) big_zero" using ad(2) by simp
    next
      fix r assume "r \<in> resting b"
      from rs[OF this]
      show "r \<in> resting (add ?i b2) \<or> big_eq (remaining (objs (add ?i b2) ! r)) big_zero"
        unfolding ad(2,3) by auto
    next
      fix r assume r: "r < ?i" "r \<notin> resting b"
      with sub show "r \<notin> resting (add ?i b2)" unfolding ad(2) by auto
      from un[OF r] show "remaining (objs (add ?i b2) ! r) = remaining (objs b ! r)"
        unfolding ad(3) .
    qed
  next
    case False
    with cr have c: "create order b = Some b2" by simp
    have "big_eq (remaining (objs b2 ! ?i)) big_zero \<or> big_lt (remaining order) big_zero"
      using nn False by (auto simp: big_eq_val big_gt_val big_lt_val)
    with c len rs un sub show ?thesis by auto
  qed
qed

section \<open>The trades of a CREATE\<close>

lemma filled_Nil [simp]: "filled [] k r = 0"
  by (simp add: filled_def)

lemma filled_snoc:
  "filled (fills @ [(m, q)]) k r = filled fills k r + (if m = r \<or> r = k then big_val q else 0)"
  by (simp add: filled_def)

lemma same_order_refl [simp]: "same_order x x"
  by (simp add: same_order_def)

lemma same_order_remaining [simp]: "same_order (x\<lparr>remaining := v\<rparr>) y = same_order x y"
  by (simp add: same_order_def)

lemma step_objs_same:
  "i \<noteq> best \<Longrightarrow> r < length (objs b) \<Longrightarrow> same_order (step_objs i best b ! r) (objs b ! r)"
  by (simp add: step_objs_nth)

lemma same_order_trans: "same_order x y \<Longrightarrow> same_order y z \<Longrightarrow> same_order x z"
  by (simp add: same_order_def)

lemma fills_inv_step:
  assumes h: "book_inv b'" "fresh i b'" "match_next i b' = Some best"
    and f: "fills_inv b1 i fills b'"
  shows "fills_inv b1 i (fills @ [(best, tradeQty i best b')]) (match_step i best b')"
proof -
  note m = match_step_summary[OF h]
  from f have len: "length (objs b') = Suc i" and op: "ob_pair b' = ob_pair b1"
    and sq: "seq b' = seq b1"
    and so: "\<And>r. r \<le> i \<Longrightarrow> same_order (objs b' ! r) (objs b1 ! r)"
    and tr: "trades b' = trades b1 @ map (fill_trade b1 i) fills"
    and fi: "\<And>mq. mq \<in> set fills \<Longrightarrow>
               fst mq < i \<and> bo_side (objs b1 ! fst mq) \<noteq> bo_side (objs b1 ! i)"
    and rem: "\<And>r. r \<le> i \<Longrightarrow> big_val (remaining (objs b' ! r)) =
                big_val (remaining (objs b1 ! r)) - filled fills i r"
    unfolding fills_inv_def by blast+
  have bi: "best < i" using m(8,9) len by simp
  from h(1) have s: "inv_struct b'" by (simp add: book_inv_def)
  have sides: "bo_side (objs b' ! best) \<noteq> bo_side (objs b' ! i)"
    using match_wf_best(5)[OF fresh_match_wf[OF s h(2)] h(3)] .
  have mt: "make_trade i best b' = fill_trade b1 i (best, tradeQty i best b')"
    using so[of i] so[of best] bi op
    by (simp add: make_trade_def fill_trade_def same_order_def)
  let ?b = "match_step i best b'"
  show ?thesis
    unfolding fills_inv_def
  proof (intro conjI allI impI ballI)
    show "length (objs ?b) = Suc i" using m(1) len by simp
    show "ob_pair ?b = ob_pair b1" using m(6) op by simp
    show "seq ?b = seq b1" using m(5) sq by simp
    show "trades ?b = trades b1 @ map (fill_trade b1 i) (fills @ [(best, tradeQty i best b')])"
      using m(4) tr mt by simp
  next
    fix r assume r: "r \<le> i"
    then have rl: "r < length (objs b')" using len by simp
    show "same_order (objs ?b ! r) (objs b1 ! r)"
      unfolding m(1) using same_order_trans[OF step_objs_same[OF m(8)[symmetric] rl] so[OF r]] .
    show "big_val (remaining (objs ?b ! r)) =
          big_val (remaining (objs b1 ! r)) - filled (fills @ [(best, tradeQty i best b')]) i r"
      unfolding m(1) filled_snoc
      using step_objs_nth[OF m(8)[symmetric] rl] rem[OF r] m(8)
      by (auto simp: big_minus_val)
  next
    fix mq assume "mq \<in> set (fills @ [(best, tradeQty i best b')])"
    then have "mq \<in> set fills \<or> mq = (best, tradeQty i best b')" by auto
    then show "fst mq < i" "bo_side (objs b1 ! fst mq) \<noteq> bo_side (objs b1 ! i)"
      using fi[of mq] bi sides so[of i] so[of best] by (auto simp: same_order_def)
  qed
qed

lemma create_fills:
  assumes inv: "book_inv b" and ts: "ts order = seq b"
  shows "\<exists>b' fills. create order b = Some b' \<and> book_inv b' \<and>
           fills_inv (b\<lparr>seq := seq b + 1, objs := objs b @ [order]\<rparr>) (length (objs b)) fills b'"
proof -
  let ?i = "length (objs b)"
  let ?b1 = "b\<lparr>seq := seq b + 1, objs := objs b @ [order]\<rparr>"
  let ?P = "\<lambda>b'. \<exists>fills. fills_inv ?b1 ?i fills b'"
  have "\<exists>b2. create order b =
               Some (if big_gt (remaining (objs b2 ! ?i)) big_zero then add ?i b2 else b2) \<and>
              book_inv b2 \<and> fresh ?i b2 \<and> match_next ?i b2 = None \<and> ?P b2"
  proof (rule create_rule[OF inv ts, where P = ?P])
    have "fills_inv ?b1 ?i [] ?b1" by (simp add: fills_inv_def)
    then show "?P ?b1" by blast
  next
    fix b' best
    assume "book_inv b'" "fresh ?i b'" "?P b'" "match_next ?i b' = Some best"
    with fills_inv_step[of b' ?i best ?b1] show "?P (match_step ?i best b')" by blast
  qed
  then obtain b2 fills where cr: "create order b =
               Some (if big_gt (remaining (objs b2 ! ?i)) big_zero then add ?i b2 else b2)"
    and i2: "book_inv b2" and f2: "fresh ?i b2" and n2: "match_next ?i b2 = None"
    and P2: "fills_inv ?b1 ?i fills b2" by blast
  show ?thesis
  proof (cases "big_gt (remaining (objs b2 ! ?i)) big_zero")
    case True
    note ad = book_inv_add[OF i2 f2 n2 True]
    have "ob_pair (add ?i b2) = ob_pair b2" by (simp add: add_def Let_def)
    with P2 ad(3,5,6) have "fills_inv ?b1 ?i fills (add ?i b2)" by (simp add: fills_inv_def)
    with True cr ad(1) show ?thesis by auto
  next
    case False
    with cr i2 P2 show ?thesis by auto
  qed
qed

lemma ok_trade_cong:
  assumes "ok_trade b t" "length (objs b) \<le> length (objs b')" "ob_pair b' = ob_pair b"
    and "\<And>r. r < length (objs b) \<Longrightarrow> same_order (objs b' ! r) (objs b ! r)"
  shows "ok_trade b' t"
proof -
  from assms(1) obtain k m where km: "k < length (objs b)" "m < k"
    and t: "tr_pair t = ob_pair b"
    "bo_side (objs b ! m) \<noteq> bo_side (objs b ! k)"
    "tr_price t = big_toString (price (objs b ! m))"
    "buyOrderId t = bo_id (objs b ! (if bo_side (objs b ! k) = BUY then k else m))"
    "sellOrderId t = bo_id (objs b ! (if bo_side (objs b ! k) = BUY then m else k))"
    unfolding ok_trade_def by blast
  from km have ml: "m < length (objs b)" by simp
  from assms(4)[OF km(1)] assms(4)[OF ml]
  have e: "bo_side (objs b' ! k) = bo_side (objs b ! k)" "bo_side (objs b' ! m) = bo_side (objs b ! m)"
    "bo_id (objs b' ! k) = bo_id (objs b ! k)" "bo_id (objs b' ! m) = bo_id (objs b ! m)"
    "price (objs b' ! m) = price (objs b ! m)"
    by (simp_all add: same_order_def)
  show ?thesis
    unfolding ok_trade_def
  proof (intro exI conjI)
    show "k < length (objs b')" using km(1) assms(2) by simp
    show "m < k" by fact
    show "tr_pair t = ob_pair b'" using t(1) assms(3) by simp
    show "bo_side (objs b' ! m) \<noteq> bo_side (objs b' ! k)" using t(2) e by simp
    show "tr_price t = big_toString (price (objs b' ! m))" using t(3) e by simp
    show "buyOrderId t = bo_id (objs b' ! (if bo_side (objs b' ! k) = BUY then k else m))"
      using t(4) e by simp
    show "sellOrderId t = bo_id (objs b' ! (if bo_side (objs b' ! k) = BUY then m else k))"
      using t(5) e by simp
  qed
qed

lemma creates_snoc:
  "creates (pre @ [raw]) = (if type_op raw = CREATE then creates pre @ [raw] else creates pre)"
  by (simp add: creates_def)

lemma optype_neq: "(x \<noteq> DELETE) = (x = CREATE)"
  by (cases x) auto

lemma process_cases:
  assumes inv: "book_inv b" and pr: "process raw b = Some (Inr b')"
  shows "(type_op raw = DELETE \<and> objs b' = objs b \<and> trades b' = trades b \<and>
          ob_pair b' = ob_pair b \<and> seq b' = seq b) \<or>
         (type_op raw = CREATE \<and>
          (\<exists>p a fills. big_parse (limit_price raw) = Some p \<and> big_parse (amount raw) = Some a \<and>
             fills_inv (b\<lparr>seq := seq b + 1, objs := objs b @ [new_order raw p a (seq b)]\<rparr>)
               (length (objs b)) fills b'))"
proof (cases "type_op raw = DELETE")
  case True
  from inv have s: "inv_struct b" by (simp add: book_inv_def)
  show ?thesis
  proof (cases "idIndex b (order_id raw)")
    case None
    with True pr show ?thesis by (simp add: process_def)
  next
    case (Some found)
    with True pr have b': "b' = remove_order found b" by (simp add: process_def)
    from inv_structD(7)[OF s Some] have "found \<in> resting b" by simp
    from inv_struct_remove[OF s this] True b' show ?thesis by simp
  qed
next
  case False
  then have c: "type_op raw = CREATE" by (simp add: optype_neq)
  with pr obtain p a where pa: "big_parse (limit_price raw) = Some p"
    "big_parse (amount raw) = Some a"
    and cr: "create (new_order raw p a (seq b)) b = Some b'"
    by (auto simp: process_def split: option.splits)
  have "ts (new_order raw p a (seq b)) = seq b" by (simp add: new_order_def)
  from create_fills[OF inv this] cr pa c show ?thesis by auto
qed

lemma hist_inv_process:
  assumes inv: "book_inv b" and h: "hist_inv pre b" and pr: "process raw b = Some (Inr b')"
  shows "hist_inv (pre @ [raw]) b'"
proof -
  from h have len: "length (objs b) = length (creates pre)"
    and ob: "\<And>r. r < length (objs b) \<Longrightarrow>
         bo_id (objs b ! r) = order_id (creates pre ! r) \<and>
         bo_side (objs b ! r) = side (creates pre ! r) \<and>
         big_parse (limit_price (creates pre ! r)) = Some (price (objs b ! r))"
    and tr: "\<And>t. t \<in> set (trades b) \<Longrightarrow> ok_trade b t"
    unfolding hist_inv_def by blast+
  from process_cases[OF inv pr] show ?thesis
  proof (elim disjE conjE exE)
    assume d: "type_op raw = DELETE" "objs b' = objs b" "trades b' = trades b"
      "ob_pair b' = ob_pair b"
    have "ok_trade b' t" if "t \<in> set (trades b)" for t
      by (rule ok_trade_cong[OF tr[OF that]]) (simp_all add: d)
    with d len ob show ?thesis
      unfolding hist_inv_def by (simp add: creates_snoc)
  next
    fix p a fills
    let ?o = "new_order raw p a (seq b)"
    let ?i = "length (objs b)"
    let ?b1 = "b\<lparr>seq := seq b + 1, objs := objs b @ [?o]\<rparr>"
    assume c: "type_op raw = CREATE" and pa: "big_parse (limit_price raw) = Some p"
      "big_parse (amount raw) = Some a" and f: "fills_inv ?b1 ?i fills b'"
    from f have l': "length (objs b') = Suc ?i" and op: "ob_pair b' = ob_pair b"
      and so: "\<And>r. r \<le> ?i \<Longrightarrow> same_order (objs b' ! r) (objs ?b1 ! r)"
      and tr': "trades b' = trades b @ map (fill_trade ?b1 ?i) fills"
      and fi: "\<And>mq. mq \<in> set fills \<Longrightarrow>
               fst mq < ?i \<and> bo_side (objs ?b1 ! fst mq) \<noteq> bo_side (objs ?b1 ! ?i)"
      unfolding fills_inv_def by simp_all
    have cs: "creates (pre @ [raw]) = creates pre @ [raw]" using c by (simp add: creates_snoc)
    have fields: "bo_id (objs b' ! r) = order_id (creates (pre @ [raw]) ! r) \<and>
         bo_side (objs b' ! r) = side (creates (pre @ [raw]) ! r) \<and>
         big_parse (limit_price (creates (pre @ [raw]) ! r)) = Some (price (objs b' ! r))"
      if r: "r < length (objs b')" for r
    proof (cases "r < ?i")
      case True
      with so[of r] ob[OF True] len show ?thesis
        unfolding cs by (simp add: same_order_def nth_append)
    next
      case False
      with r l' have "r = ?i" by simp
      with so[of ?i] len pa show ?thesis
        unfolding cs by (simp add: same_order_def nth_append new_order_def)
    qed
    have sob: "same_order (objs b' ! r) (objs b ! r)" if "r < ?i" for r
      using so[of r] that by (simp add: nth_append)
    have oks: "ok_trade b' t" if t: "t \<in> set (trades b')" for t
    proof -
      from t tr' have "t \<in> set (trades b) \<or> (\<exists>mq\<in>set fills. t = fill_trade ?b1 ?i mq)" by auto
      then show ?thesis
      proof
        assume "t \<in> set (trades b)"
        from ok_trade_cong[OF tr[OF this], of b'] l' op sob show ?thesis by simp
      next
        assume "\<exists>mq\<in>set fills. t = fill_trade ?b1 ?i mq"
        then obtain mq where mq: "mq \<in> set fills" and te: "t = fill_trade ?b1 ?i mq" by blast
        from fi[OF mq] have m: "fst mq < ?i"
          and sd: "bo_side (objs ?b1 ! fst mq) \<noteq> bo_side (objs ?b1 ! ?i)" by simp_all
        from so[of ?i] so[of "fst mq"] m
        have e: "bo_side (objs b' ! ?i) = bo_side (objs ?b1 ! ?i)"
          "bo_side (objs b' ! fst mq) = bo_side (objs ?b1 ! fst mq)"
          "bo_id (objs b' ! ?i) = bo_id (objs ?b1 ! ?i)"
          "bo_id (objs b' ! fst mq) = bo_id (objs ?b1 ! fst mq)"
          "price (objs b' ! fst mq) = price (objs ?b1 ! fst mq)"
          by (simp_all add: same_order_def)
        show ?thesis
          unfolding ok_trade_def
        proof (intro exI conjI)
          show "?i < length (objs b')" using l' by simp
          show "fst mq < ?i" by fact
          show "tr_pair t = ob_pair b'" using te op by (simp add: fill_trade_def)
          show "bo_side (objs b' ! fst mq) \<noteq> bo_side (objs b' ! ?i)" using sd e by simp
          show "tr_price t = big_toString (price (objs b' ! fst mq))"
            using te e by (simp add: fill_trade_def)
          show "buyOrderId t =
                bo_id (objs b' ! (if bo_side (objs b' ! ?i) = BUY then ?i else fst mq))"
            using te e by (simp add: fill_trade_def)
          show "sellOrderId t =
                bo_id (objs b' ! (if bo_side (objs b' ! ?i) = BUY then fst mq else ?i))"
            using te e by (simp add: fill_trade_def)
        qed
      qed
    qed
    show ?thesis
      unfolding hist_inv_def using l' len cs fields oks by simp
  qed
qed

lemma process_ob_pair:
  assumes "book_inv b" "process raw b = Some (Inr b')"
  shows "ob_pair b' = ob_pair b"
  using process_cases[OF assms] by (auto simp: fills_inv_def)

lemma hist_inv_process_all:
  "book_inv b \<Longrightarrow> hist_inv pre b \<Longrightarrow> process_all raws b = Some (Inr b') \<Longrightarrow>
   hist_inv (pre @ raws) b' \<and> ob_pair b' = ob_pair b \<and> book_inv b'"
proof (induction raws arbitrary: pre b)
  case Nil
  then show ?case by simp
next
  case (Cons raw raws)
  from Cons.prems(3) obtain b1 where p1: "process raw b = Some (Inr b1)"
    and r: "process_all raws b1 = Some (Inr b')"
    by (auto split: option.splits sum.splits)
  from process_book_inv[OF Cons.prems(1), of raw] p1 have i1: "book_inv b1" by simp
  from Cons.IH[OF i1 hist_inv_process[OF Cons.prems(1,2) p1] r]
    process_ob_pair[OF Cons.prems(1) p1]
  show ?case by simp
qed

lemma hist_inv_new: "hist_inv [] (newOrderBook p)"
  by (simp add: hist_inv_def newOrderBook_def creates_def)

lemma hist_inv_run:
  assumes "process_all raws (newOrderBook p) = Some (Inr b)"
  shows "hist_inv raws b" "ob_pair b = p" "book_inv b"
  using hist_inv_process_all[OF book_inv_new hist_inv_new assms]
  by (simp_all add: newOrderBook_def)

lemma finish_trades:
  "t \<in> set (snd (finish e)) = (\<exists>p b. (p, b) \<in> set (books e) \<and> t \<in> set (trades b))"
  by (auto simp: finish_def)



section \<open>Orders that have left the book\<close>

lemma deleted_Cons:
  "process raw b = Some (Inr b') \<Longrightarrow> deleted (raw # raws) b = deleted [raw] b @ deleted raws b'"
  by (simp add: deleted.simps(2))

lemma deleted_DELETE:
  "type_op raw = DELETE \<Longrightarrow> idIndex b (order_id raw) = Some found \<Longrightarrow>
   deleted [raw] b = [found]"
  by (simp add: process_def deleted.simps(2))

lemma deleted_no_DELETE:
  "type_op raw = CREATE \<or> idIndex b (order_id raw) = None \<Longrightarrow> deleted [raw] b = []"
  by (auto simp: deleted.simps(2) split: option.splits sum.splits)

lemma settled_process:
  assumes inv: "book_inv b" and h: "hist_inv pre b" and st: "settled (creates pre) ds b"
    and pr: "process raw b = Some (Inr b')"
  shows "settled (creates (pre @ [raw])) (ds @ deleted [raw] b) b'"
proof (cases "type_op raw = DELETE")
  case True
  from inv have s: "inv_struct b" by (simp add: book_inv_def)
  have cs: "creates (pre @ [raw]) = creates pre" using True by (simp add: creates_snoc)
  show ?thesis
  proof (cases "idIndex b (order_id raw)")
    case None
    then have "deleted [raw] b = []" by (intro deleted_no_DELETE disjI2)
    with None True pr st show ?thesis by (simp add: process_def cs)
  next
    case (Some found)
    with True pr have b': "b' = remove_order found b" by (simp add: process_def)
    from inv_structD(7)[OF s Some] have "found \<in> resting b" by simp
    note rm = inv_struct_remove[OF s this]
    have "settled (creates pre) (ds @ [found]) (remove_order found b)"
      using st by (auto simp: settled_def rm(2,3))
    then show ?thesis by (simp add: cs b' deleted_DELETE[OF True Some])
  qed
next
  case False
  then have c: "type_op raw = CREATE" by (simp add: optype_neq)
  then have dl: "deleted [raw] b = []" by (intro deleted_no_DELETE disjI1)
  from c pr obtain p a where pa: "big_parse (limit_price raw) = Some p"
    "big_parse (amount raw) = Some a"
    and cr: "create (new_order raw p a (seq b)) b = Some b'"
    by (auto simp: process_def split: option.splits)
  let ?i = "length (objs b)"
  have t: "ts (new_order raw p a (seq b)) = seq b" by (simp add: new_order_def)
  from create_keeps[OF inv t] cr
  have len: "length (objs b') = Suc ?i"
    and rs: "\<And>r. r \<in> resting b \<Longrightarrow> r \<in> resting b' \<or> big_eq (remaining (objs b' ! r)) big_zero"
    and un: "\<And>r. r < ?i \<Longrightarrow> r \<notin> resting b \<Longrightarrow> remaining (objs b' ! r) = remaining (objs b ! r)"
    and nw: "?i \<in> resting b' \<or> big_eq (remaining (objs b' ! ?i)) big_zero \<or>
             big_lt a big_zero"
    by (auto simp: new_order_def)
  from h have hl: "length (objs b) = length (creates pre)" by (simp add: hist_inv_def)
  have cs: "creates (pre @ [raw]) = creates pre @ [raw]" using c by (simp add: creates_snoc)
  show ?thesis
    unfolding settled_def dl append_Nil2
  proof (intro allI impI)
    fix r assume "r < length (objs b')"
    then have "r < ?i \<or> r = ?i" using len by auto
    then show "r \<in> resting b' \<or> r \<in> set ds \<or>
       big_eq (remaining (objs b' ! r)) big_zero \<or>
       (\<exists>q. big_parse (amount (creates (pre @ [raw]) ! r)) = Some q \<and> big_lt q big_zero)"
    proof
      assume r: "r < ?i"
      then have e: "creates (pre @ [raw]) ! r = creates pre ! r"
        unfolding cs using hl by (simp add: nth_append)
      from st r have d: "r \<in> resting b \<or> r \<in> set ds \<or>
        big_eq (remaining (objs b ! r)) big_zero \<or>
        (\<exists>q. big_parse (amount (creates pre ! r)) = Some q \<and> big_lt q big_zero)"
        by (simp add: settled_def)
      show ?thesis
      proof (cases "r \<in> resting b")
        case True
        from rs[OF True] show ?thesis by blast
      next
        case False
        with d un[OF r] show ?thesis by (auto simp: e)
      qed
    next
      assume r: "r = ?i"
      then have e: "creates (pre @ [raw]) ! r = raw"
        unfolding cs using hl by (simp add: nth_append)
      then have e': "creates (pre @ [raw]) ! ?i = raw" using r by simp
      from nw pa(2) show ?thesis by (auto simp: e' r)
    qed
  qed
qed

lemma settled_process_all:
  "book_inv b \<Longrightarrow> hist_inv pre b \<Longrightarrow> settled (creates pre) ds b \<Longrightarrow>
   process_all raws b = Some (Inr b') \<Longrightarrow>
   settled (creates (pre @ raws)) (ds @ deleted raws b) b'"
proof (induction raws arbitrary: pre b ds)
  case Nil
  then show ?case by simp
next
  case (Cons raw raws)
  from Cons.prems(4) obtain b1 where p1: "process raw b = Some (Inr b1)"
    and r: "process_all raws b1 = Some (Inr b')"
    by (auto simp: deleted.simps(2) split: option.splits sum.splits)
  from process_book_inv[OF Cons.prems(1), of raw] p1 have i1: "book_inv b1" by simp
  from Cons.IH[OF i1 hist_inv_process[OF Cons.prems(1,2) p1]
      settled_process[OF Cons.prems(1,2,3) p1] r]
  have "settled (creates (pre @ raw # raws)) (ds @ deleted [raw] b @ deleted raws b1) b'" by simp
  then show ?case by (subst deleted_Cons[OF p1])
qed

lemma settled_run:
  assumes "process_all raws (newOrderBook p) = Some (Inr b)"
  shows "settled (creates raws) (deleted raws (newOrderBook p)) b"
proof -
  have "settled (creates []) [] (newOrderBook p)" by (simp add: settled_def newOrderBook_def)
  from settled_process_all[OF book_inv_new hist_inv_new this assms] show ?thesis by simp
qed

section \<open>The order of the trades of a CREATE\<close>

lemma heap_best_first:
  assumes inv: "book_inv b" and fr: "fresh i b" and nx: "match_next i b = Some best"
    and x: "x = i \<or> x = best"
    and tsa: "ts (objs b ! a) < ts (objs b ! x)"
    and pe: "big_eq (price (objs b ! a)) (price (objs b ! x))"
    and sd: "bo_side (objs b ! a) = bo_side (objs b ! x)"
  shows "a \<notin> resting b"
proof
  assume ar: "a \<in> resting b"
  from inv have s: "inv_struct b" by (simp add: book_inv_def)
  note d = inv_structD[OF s]
  note wf = fresh_match_wf[OF s fr]
  note w = match_wf_best[OF wf nx]
  note mn = match_next_Some[OF nx]
  from x show False
  proof
    assume xb: "x = best"
    have "a \<in> set (bookSide i b)"
      using ar sd xb w(1) d(3)[of a] d(4)[of a] d(3)[of best] d(4)[of best]
      by (auto simp: bookSide_def resting_def split: if_splits)
    with mn have le: "(if bo_side (objs b ! i) = BUY then asks_compare (objs b) best a
                       else bids_compare (objs b) best a) \<le> 0"
      using heap_peek_le[OF asks_compare_good d(6), of best a]
        heap_peek_le[OF bids_compare_good d(5), of best a]
      by (auto simp: bookSide_def split: if_splits)
    with pe tsa xb show False
      by (auto simp: asks_compare_le bids_compare_le big_eq_val split: if_splits)
  next
    assume xi: "x = i"
    show False
    proof (cases "bo_side (objs b ! i)")
      case BUY
      with sd xi ar have ab: "a \<in> set (bids b)" using resting_side(1)[OF s ar] by simp
      from BUY w(1) have ba: "best \<in> set (asks b)" by (simp add: bookSide_def)
      from d(8)[OF ab ba] have "big_val (price (objs b ! a)) < big_val (price (objs b ! best))"
        by (simp add: big_lt_val)
      moreover from mn BUY have "big_val (price (objs b ! best)) \<le> big_val (price (objs b ! i))"
        by (simp add: priceOK_def big_gte_val)
      ultimately show False using pe xi by (simp add: big_eq_val)
    next
      case SELL
      with sd xi ar have ab: "a \<in> set (asks b)" using resting_side(2)[OF s ar] by simp
      from SELL w(1) have ba: "best \<in> set (bids b)" by (simp add: bookSide_def)
      from d(8)[OF ba ab] have "big_val (price (objs b ! best)) < big_val (price (objs b ! a))"
        by (simp add: big_lt_val)
      moreover from mn SELL have "big_val (price (objs b ! i)) \<le> big_val (price (objs b ! best))"
        by (simp add: priceOK_def big_lte_val)
      ultimately show False using pe xi by (simp add: big_eq_val)
    qed
  qed
qed

lemma match_trades_mono:
  assumes "book_inv b" "fresh i b" "match i b = Some b2"
  shows "set (trades b) \<subseteq> set (trades b2)"
proof -
  have wf: "match_wf i b" using assms fresh_match_wf by (simp add: book_inv_def)
  let ?P = "\<lambda>b'. book_inv b' \<and> fresh i b' \<and> set (trades b) \<subseteq> set (trades b')"
  have "\<exists>b'. match i b = Some b' \<and> ?P b' \<and> match_wf i b' \<and> match_next i b' = None"
  proof (rule match_rule[where P = ?P, OF wf])
    show "?P b" using assms by simp
  next
    fix b' best
    assume h: "?P b'" "match_next i b' = Some best"
    then have "trades (match_step i best b') = trades b' @ [make_trade i best b']"
      using match_step_summary(4)[of b' i best] by simp
    with h book_inv_match_step[of b' i best] show "?P (match_step i best b')" by auto
  qed
  with assms(3) show ?thesis by auto
qed

lemma match_steps_trade:
  "book_inv b \<Longrightarrow> fresh i b \<Longrightarrow> match i b = Some b2 \<Longrightarrow>
   match_next i (match_steps n i b) = Some best \<Longrightarrow>
   make_trade i best (match_steps n i b) \<in> set (trades b2)"
proof (induction n arbitrary: b)
  case 0
  then have nx: "match_next i b = Some best" by simp
  note st = book_inv_match_step[OF "0.prems"(1,2) nx]
  from "0.prems"(3) have "match i (match_step i best b) = Some b2" by (simp add: match_go[OF nx])
  from match_trades_mono[OF _ _ this] st
  have "set (trades (match_step i best b)) \<subseteq> set (trades b2)" by simp
  then show ?case
    using match_step_summary(4)[OF "0.prems"(1,2) nx] by simp
next
  case (Suc n)
  show ?case
  proof (cases "match_next i b")
    case None
    with Suc.prems(4) show ?thesis by simp
  next
    case (Some b0)
    note st = book_inv_match_step[OF Suc.prems(1,2) Some]
    from Suc.prems(3) have m: "match i (match_step i b0 b) = Some b2"
      by (simp add: match_go[OF Some])
    from Suc.prems(4) Some
    have "match_next i (match_steps n i (match_step i b0 b)) = Some best" by simp
    from Suc.IH[OF _ _ m this] st Some show ?thesis by simp
  qed
qed

section \<open>What is traded under an id\<close>

lemma traded_Nil [simp]: "traded p k [] = 0"
  by (simp add: traded_def)













section \<open>The sample states, evaluated\<close>

lemma ex_stream_run:
  "map_option (map_sum id (\<lambda>e. map (\<lambda>(p, b). (p, ob_pair b, bids b, asks b, trades b, objs b, seq b)) (books e)))
     (ingest_all ex_stream newMatcherEngine) =
   Some (Inr [(''BTC/USDC'', ''BTC/USDC'', [1], [0],
     [\<lparr>tr_pair = ''BTC/USDC'', buyOrderId = ''3'', sellOrderId = ''1'',
       tr_price = ''100'', tr_amount = ''0.2''\<rparr>],
     [\<lparr>bo_id = ''1'', bo_account = ''1'', bo_side = SELL, bo_pair = ''BTC/USDC'',
       price = Big 100 0, remaining = Big 30 2, ts = 0\<rparr>,
      \<lparr>bo_id = ''2'', bo_account = ''1'', bo_side = BUY, bo_pair = ''BTC/USDC'',
       price = Big 99 0, remaining = Big 1 0, ts = 1\<rparr>,
      \<lparr>bo_id = ''3'', bo_account = ''1'', bo_side = BUY, bo_pair = ''BTC/USDC'',
       price = Big 1010 1, remaining = Big 0 2, ts = 2\<rparr>],
     3)])"
  by code_simp

lemma ex_stream_result:
  "\<exists>e b. ingest_all ex_stream newMatcherEngine = Some (Inr e) \<and>
     books e = [(''BTC/USDC'', b)] \<and> ob_pair b = ''BTC/USDC'' \<and> bids b = [1] \<and> asks b = [0] \<and>
     trades b = [\<lparr>tr_pair = ''BTC/USDC'', buyOrderId = ''3'', sellOrderId = ''1'',
                  tr_price = ''100'', tr_amount = ''0.2''\<rparr>] \<and>
     objs b = [ex_order ''1'' SELL (Big 100 0) (Big 30 2) 0,
               ex_order ''2'' BUY (Big 99 0) (Big 1 0) 1,
               ex_order ''3'' BUY (Big 1010 1) (Big 0 2) 2] \<and>
     seq b = 3"
  using ex_stream_run
  by (auto simp: ex_order_def map_option_case map_sum_def split: option.splits sum.splits
        elim!: list.map_cong)

lemma ex_book_inv: "book_inv ex_book \<and> fresh 1 ex_book \<and> match_next 1 ex_book = Some 0"
  by (simp add: book_inv_def inv_struct_def inv_pos_def inv_ts_def fresh_def resting_def
        heap_ok_def ex_defs less_Suc_eq)

lemma ex_rest_inv: "book_inv ex_rest"
  by (simp add: book_inv_def inv_struct_def inv_pos_def inv_ts_def resting_def
        heap_ok_def ex_rest_def ex_defs)

lemma ex_rest_reached:
  "process (ex_cmd CREATE SELL ''1'' ''100'' ''0.5'') (newOrderBook ''BTC/USDC'') = Some (Inr ex_rest)"
proof -
  have p: "big_parse ''100'' = Some (Big 100 0)" "big_parse ''0.5'' = Some (Big 5 1)"
    by code_simp+
  let ?o = "ex_order ''1'' SELL (Big 100 0) (Big 5 1) 0"
  let ?b1 = "(newOrderBook ''BTC/USDC'')\<lparr>seq := 1, objs := [?o]\<rparr>"
  have n: "match_next 0 ?b1 = None"
    by (simp add: match_next_def bookSide_def newOrderBook_def ex_order_def)
  have "create ?o (newOrderBook ''BTC/USDC'') = Some ex_rest"
    using match_stop[OF n]
    by (simp add: create_def Let_def newOrderBook_def ex_rest_def add_def heap_push_def
          sortNodeUp_stop ex_order_def big_gt_def big_cmp_def big_zero_def)
  then show ?thesis
    by (simp add: process_def ex_cmd_def p new_order_def ex_order_def newOrderBook_def)
qed

lemma map_option_sum_InrD:
  "map_option (map_sum f g) x = Some (Inr v) \<Longrightarrow> \<exists>y. x = Some (Inr y) \<and> g y = v"
proof (cases x)
  case None
  assume "map_option (map_sum f g) x = Some (Inr v)"
  with None show ?thesis by simp
next
  case (Some z)
  assume "map_option (map_sum f g) x = Some (Inr v)"
  with Some show ?thesis by (cases z) auto
qed

lemma ex_dup_same_side:
  "map_option (map_sum id (\<lambda>b. (bids b, asks b, remaining (objs b ! 1), remaining (objs b ! 0))))
     (process (ex_cmd CREATE SELL ''1'' ''105'' ''1'') ex_rest) =
   Some (Inr ([], [0, 1], Big 1 0, Big 5 1))"
  by code_simp

lemma ex_dup_crossing:
  "map_option (map_sum id (\<lambda>b. (bids b, asks b, remaining (objs b ! 1))))
     (process (ex_cmd CREATE BUY ''1'' ''100'' ''2'') ex_rest) =
   Some (Inr ([1], [], Big 15 1))"
  by code_simp

lemma ex_fifo_run:
  "map_option (map_sum id (\<lambda>e. (length (objs (book_of e ''BTC/USDC'')), seq (book_of e ''BTC/USDC''),
       match_next 2 (match_steps 1 2 ((book_of e ''BTC/USDC'')\<lparr>seq := 3,
          objs := objs (book_of e ''BTC/USDC'') @ [new_order ex_fifo_cmd (Big 100 0) (Big 1 0) 2]\<rparr>)),
       remaining (objs (match_steps 1 2 ((book_of e ''BTC/USDC'')\<lparr>seq := 3,
          objs := objs (book_of e ''BTC/USDC'') @ [new_order ex_fifo_cmd (Big 100 0) (Big 1 0) 2]\<rparr>)) ! 0))))
     (ingest_all ex_fifo_pre newMatcherEngine) =
   Some (Inr (2, 2, Some 1, Big 0 1))"
  by code_simp

lemma ex_neg_run:
  "map_option (map_sum id (\<lambda>e. map (\<lambda>(p, b). (p, bids b, asks b, trades b, map bo_id (objs b), map remaining (objs b))) (books e)))
     (ingest_all ex_neg newMatcherEngine) =
   Some (Inr [(''BTC/USDC'', [], [],
     [\<lparr>tr_pair = ''BTC/USDC'', buyOrderId = ''2'', sellOrderId = ''3'',
       tr_price = ''100'', tr_amount = ''1''\<rparr>],
     [''1'', ''2'', ''3''], [Big (- 1) 0, Big 0 0, Big 0 0])])"
  by code_simp

lemma ex_neg_deleted: "deleted ex_neg (newOrderBook ''BTC/USDC'') = []"
  by code_simp



section \<open>Termination of the crossing loop\<close>

text \<open>
  Claim C10. The loop of \<^verbatim>\<open>match\<close> terminates, in at most as many iterations as the
  opposite heap has elements (so in at most that many plus one): when the incoming order
  \<open>i\<close> is an object of the store and the opposite heap holds other objects, all of the
  other side, \<^verbatim>\<open>match\<close> returns the state reached after \<open>n\<close> iterations for every \<open>n\<close>
  from the size of the opposite heap on, and the loop test fails there. Each iteration
  either brings the remaining quantity of the incoming order to zero or makes the opposite
  heap smaller. The positive remaining quantities of the resting orders are not needed.
\<close>

theorem match_terminates:
  assumes "match_wf i b"
  shows "(length (bookSide i b) \<le> n \<longrightarrow>
            match i b = Some (match_steps n i b) \<and> match_next i (match_steps n i b) = None) \<and>
         (\<forall>best. match_next i b = Some best \<longrightarrow>
            big_eq (remaining (objs (match_step i best b) ! i)) big_zero \<or>
            length (bookSide i (match_step i best b)) < length (bookSide i b))"
proof (rule conjI)
  show "length (bookSide i b) \<le> n \<longrightarrow>
          match i b = Some (match_steps n i b) \<and> match_next i (match_steps n i b) = None"
  proof
    assume n: "length (bookSide i b) \<le> n"
    from match_rule_aux[where P = "\<lambda>b. True" and n = n and i = i and b = b] assms n
    show "match i b = Some (match_steps n i b) \<and> match_next i (match_steps n i b) = None"
      by simp
  qed
next
  show "\<forall>best. match_next i b = Some best \<longrightarrow>
          big_eq (remaining (objs (match_step i best b) ! i)) big_zero \<or>
          length (bookSide i (match_step i best b)) < length (bookSide i b)"
  proof (intro allI impI)
    fix best assume "match_next i b = Some best"
    from match_step_progress(2)[OF assms this]
    show "big_eq (remaining (objs (match_step i best b) ! i)) big_zero \<or>
          length (bookSide i (match_step i best b)) < length (bookSide i b)"
      by blast
  qed
qed

theorem match_terminates_witness:
  "match 1 ex_book = Some (match_steps 2 1 ex_book) \<and>
   match_next 1 (match_steps 2 1 ex_book) = None \<and>
   match_next 1 ex_book = Some 0 \<and>
   (big_eq (remaining (objs (match_step 1 0 ex_book) ! 1)) big_zero \<or>
    length (bookSide 1 (match_step 1 0 ex_book)) < length (bookSide 1 ex_book))"
proof -
  have wf: "match_wf 1 ex_book" by (simp add: ex_defs)
  have nx: "match_next 1 ex_book = Some 0" by (simp add: ex_defs)
  have le: "length (bookSide 1 ex_book) \<le> 2" by (simp add: ex_defs)
  from match_terminates[OF wf, of 2] le nx show ?thesis by simp
qed

section \<open>DELETE of an unknown id\<close>

text \<open>
  Claim C6, as amended. A DELETE whose id is not in the index of the book leaves the book
  as it is, with no error: heaps, index, sequence counter, trades and store are the same.
  The engine is left as it is when it already has the book of the pair of the command.
  (When it has not, \<^verbatim>\<open>bookFor\<close> creates the book first; see the counterexample.)
\<close>

theorem delete_unknown_id_noop:
  assumes "type_op raw = DELETE" and "idIndex b (order_id raw) = None"
  shows "process raw b = Some (Inr b) \<and>
         (map_of (books e) (pair raw) = Some b \<longrightarrow> ingest raw e = Some (Inr e))"
proof
  show p: "process raw b = Some (Inr b)"
    using assms by (simp add: process_def)
  show "map_of (books e) (pair raw) = Some b \<longrightarrow> ingest raw e = Some (Inr e)"
  proof
    assume m: "map_of (books e) (pair raw) = Some b"
    then have "AList.update (pair raw) b (books e) = books e"
      by (rule update_triv)
    with m p show "ingest raw e = Some (Inr e)"
      by (simp add: ingest_def bookFor_def)
  qed
qed

theorem delete_unknown_id_noop_witness:
  "process \<lparr>type_op = DELETE, account_id = ''1'', amount = ''0.5'', order_id = ''9'',
            pair = ''BTC/USDC'', limit_price = ''100'', side = BUY\<rparr>
     \<lparr>ob_pair = ''BTC/USDC'', bids = [0], asks = [], idIndex = [''7'' \<mapsto> 0], seq = 1,
      trades = [],
      objs = [\<lparr>bo_id = ''7'', bo_account = ''1'', bo_side = BUY, bo_pair = ''BTC/USDC'',
               price = Big 100 0, remaining = Big 5 1, ts = 0\<rparr>]\<rparr>
   = Some (Inr
     \<lparr>ob_pair = ''BTC/USDC'', bids = [0], asks = [], idIndex = [''7'' \<mapsto> 0], seq = 1,
      trades = [],
      objs = [\<lparr>bo_id = ''7'', bo_account = ''1'', bo_side = BUY, bo_pair = ''BTC/USDC'',
               price = Big 100 0, remaining = Big 5 1, ts = 0\<rparr>]\<rparr>)"
  using delete_unknown_id_noop
    [of "\<lparr>type_op = DELETE, account_id = ''1'', amount = ''0.5'', order_id = ''9'',
            pair = ''BTC/USDC'', limit_price = ''100'', side = BUY\<rparr>"
        "\<lparr>ob_pair = ''BTC/USDC'', bids = [0], asks = [], idIndex = [''7'' \<mapsto> 0], seq = 1,
      trades = [],
      objs = [\<lparr>bo_id = ''7'', bo_account = ''1'', bo_side = BUY, bo_pair = ''BTC/USDC'',
               price = Big 100 0, remaining = Big 5 1, ts = 0\<rparr>]\<rparr>"]
  by simp

theorem delete_unknown_pair_counterexample:
  "ingest \<lparr>type_op = DELETE, account_id = ''1'', amount = ''0.5'', order_id = ''9'',
           pair = ''ETH/USDC'', limit_price = ''100'', side = BUY\<rparr> newMatcherEngine
   = Some (Inr \<lparr>books = [(''ETH/USDC'', newOrderBook ''ETH/USDC'')], eng_trades = []\<rparr>)
   \<and> \<lparr>books = [(''ETH/USDC'', newOrderBook ''ETH/USDC'')], eng_trades = []\<rparr> \<noteq> newMatcherEngine
   \<and> fst (finish newMatcherEngine) = []
   \<and> fst (finish \<lparr>books = [(''ETH/USDC'', newOrderBook ''ETH/USDC'')], eng_trades = []\<rparr>)
       = [\<lparr>or_pair = ''ETH/USDC'', or_bids = [], or_asks = []\<rparr>]"
  by (simp add: ingest_def bookFor_def newMatcherEngine_def process_def newOrderBook_def
        finish_def normalize_book_def)

section \<open>CREATE of a zero amount\<close>

text \<open>
  Claim C7. A CREATE whose amount parses to zero makes no trade and enters neither the
  index nor a heap: the book after it differs from the book before it only in the sequence
  counter and in the unreferenced object of the store, so the order is never matched and
  is in no snapshot.
\<close>

theorem zero_amount_create_skipped:
  assumes "type_op raw = CREATE"
    and "big_parse (limit_price raw) = Some p"
    and "big_parse (amount raw) = Some a"
    and "big_eq a big_zero"
  shows "process raw b =
           Some (Inr (b\<lparr>seq := seq b + 1, objs := objs b @ [new_order raw p a (seq b)]\<rparr>))"
proof -
  let ?b1 = "b\<lparr>seq := seq b + 1, objs := objs b @ [new_order raw p a (seq b)]\<rparr>"
  have r: "remaining (objs ?b1 ! length (objs b)) = a"
    by (simp add: new_order_def)
  have "\<not> big_gt a big_zero" using assms(4) by (simp add: big_gt_val big_eq_val)
  with r have n: "match_next (length (objs b)) ?b1 = None"
    by (simp add: match_next_def)
  from match_stop[OF n] r \<open>\<not> big_gt a big_zero\<close>
  have "create (new_order raw p a (seq b)) b = Some ?b1"
    by (simp add: create_def Let_def)
  with assms show ?thesis by (simp add: process_def)
qed

theorem zero_amount_create_skipped_witness:
  "process \<lparr>type_op = CREATE, account_id = ''1'', amount = ''0.000'', order_id = ''9'',
            pair = ''BTC/USDC'', limit_price = ''100'', side = BUY\<rparr> (newOrderBook ''BTC/USDC'')
   = Some (Inr ((newOrderBook ''BTC/USDC'')\<lparr>seq := 1,
        objs := [\<lparr>bo_id = ''9'', bo_account = ''1'', bo_side = BUY, bo_pair = ''BTC/USDC'',
                  price = Big 100 0, remaining = Big 0 3, ts = 0\<rparr>]\<rparr>))"
  using zero_amount_create_skipped
    [of "\<lparr>type_op = CREATE, account_id = ''1'', amount = ''0.000'', order_id = ''9'',
            pair = ''BTC/USDC'', limit_price = ''100'', side = BUY\<rparr>" "Big 100 0" "Big 0 3"
        "newOrderBook ''BTC/USDC''"]
  by (simp add: big_parse_def strip_sign_def int_part_def frac_part_def is_digit_def
        digits_val_def digit_of_def big_eq_def big_cmp_def big_zero_def new_order_def
        newOrderBook_def)

section \<open>No crossed book\<close>

text \<open>
  Claim C2. Every command stream runs to its end, with an error or with an engine state;
  in that state, in every book, each bid has a price strictly below the price of each ask.
  In particular the best bid (the top of the bid heap, which no bid exceeds in price) is
  strictly below the best ask (the top of the ask heap, which no ask undercuts).
\<close>

theorem no_crossed_book:
  "\<exists>res. ingest_all raws newMatcherEngine = Some res \<and>
     (\<forall>e p b. res = Inr e \<longrightarrow> (p, b) \<in> set (books e) \<longrightarrow>
        (\<forall>x\<in>set (bids b). \<forall>y\<in>set (asks b).
           big_lt (price (objs b ! x)) (price (objs b ! y))) \<and>
        (\<forall>bb ba. heap_peek (bids b) = Some bb \<longrightarrow> heap_peek (asks b) = Some ba \<longrightarrow>
           big_lt (price (objs b ! bb)) (price (objs b ! ba)) \<and>
           (\<forall>x\<in>set (bids b). big_lte (price (objs b ! x)) (price (objs b ! bb))) \<and>
           (\<forall>y\<in>set (asks b). big_lte (price (objs b ! ba)) (price (objs b ! y)))))"
proof -
  from ingest_all_total[OF eng_inv_new, of raws] obtain res where
    r: "ingest_all raws newMatcherEngine = Some res" "\<forall>e'. res = Inr e' \<longrightarrow> eng_inv e'"
    by blast
  have "(\<forall>x\<in>set (bids b). \<forall>y\<in>set (asks b).
           big_lt (price (objs b ! x)) (price (objs b ! y))) \<and>
        (\<forall>bb ba. heap_peek (bids b) = Some bb \<longrightarrow> heap_peek (asks b) = Some ba \<longrightarrow>
           big_lt (price (objs b ! bb)) (price (objs b ! ba)) \<and>
           (\<forall>x\<in>set (bids b). big_lte (price (objs b ! x)) (price (objs b ! bb))) \<and>
           (\<forall>y\<in>set (asks b). big_lte (price (objs b ! ba)) (price (objs b ! y))))"
    if e: "res = Inr e" and pb: "(p, b) \<in> set (books e)" for e p b
  proof -
    have d: "distinct (map fst (books e))"
      using ingest_all_distinct[of raws newMatcherEngine e] r(1) e
      by (simp add: newMatcherEngine_def)
    from r(2) e have "eng_inv e" by simp
    from eng_inv_book[OF this pb d] have s: "inv_struct b" by (simp add: book_inv_def)
    note i = inv_structD[OF s]
    have x: "\<forall>x\<in>set (bids b). \<forall>y\<in>set (asks b).
           big_lt (price (objs b ! x)) (price (objs b ! y))"
      using i(8) by blast
    have "big_lt (price (objs b ! bb)) (price (objs b ! ba)) \<and>
           (\<forall>x\<in>set (bids b). big_lte (price (objs b ! x)) (price (objs b ! bb))) \<and>
           (\<forall>y\<in>set (asks b). big_lte (price (objs b ! ba)) (price (objs b ! y)))"
      if pb: "heap_peek (bids b) = Some bb" and pa: "heap_peek (asks b) = Some ba" for bb ba
    proof (intro conjI ballI)
      show "big_lt (price (objs b ! bb)) (price (objs b ! ba))"
        using i(8)[of bb ba] heap_peek_Some[OF pb] heap_peek_Some[OF pa] by simp
    next
      fix x assume "x \<in> set (bids b)"
      from heap_peek_le[OF bids_compare_good i(5) pb this]
      show "big_lte (price (objs b ! x)) (price (objs b ! bb))"
        unfolding bids_compare_le big_lte_val by auto
    next
      fix y assume "y \<in> set (asks b)"
      from heap_peek_le[OF asks_compare_good i(6) pa this]
      show "big_lte (price (objs b ! ba)) (price (objs b ! y))"
        unfolding asks_compare_le big_lte_val by auto
    qed
    with x show ?thesis by blast
  qed
  with r(1) show ?thesis by blast
qed

theorem no_crossed_book_witness:
  "\<exists>e b. ingest_all ex_stream newMatcherEngine = Some (Inr e) \<and>
     (''BTC/USDC'', b) \<in> set (books e) \<and>
     heap_peek (bids b) = Some 1 \<and> heap_peek (asks b) = Some 0 \<and>
     1 \<in> set (bids b) \<and> 0 \<in> set (asks b) \<and>
     big_lt (price (objs b ! 1)) (price (objs b ! 0))"
proof -
  from ex_stream_result obtain e b where
    r: "ingest_all ex_stream newMatcherEngine = Some (Inr e)"
    "books e = [(''BTC/USDC'', b)]" "bids b = [1]" "asks b = [0]"
    by blast
  have m: "(''BTC/USDC'', b) \<in> set (books e)" using r(2) by simp
  have pk: "heap_peek (bids b) = Some 1" "heap_peek (asks b) = Some 0"
    using r(3,4) by (simp_all add: heap_peek_def)
  from no_crossed_book[of ex_stream] r(1) m pk
  have "big_lt (price (objs b ! 1)) (price (objs b ! 0))" by auto
  with r m pk show ?thesis by auto
qed

section \<open>One iteration of the crossing loop\<close>

text \<open>
  Claim C5. In an iteration of the loop of \<^verbatim>\<open>match\<close>, with \<open>i\<close> the incoming order and
  \<open>best\<close> the top of the opposite heap: one trade is appended; its amount is the string of
  the decimal minimum of the two remaining quantities and its price the string of the price
  of \<open>best\<close>; the buy id is the id of the incoming order when that is a buy order and the
  id of \<open>best\<close> otherwise, the sell id is the other one; both remaining quantities are
  decremented by that minimum; and \<open>best\<close> leaves its heap and the index when its remaining
  quantity is then zero, while heaps and index stay as they are when it is not.
\<close>

theorem match_step_postcondition:
  assumes "book_inv b" and "fresh i b" and "match_next i b = Some best"
  shows "heap_peek (bookSide i b) = Some best \<and>
    trades (match_step i best b) =
      trades b @
      [\<lparr>tr_pair = ob_pair b,
        buyOrderId = (if bo_side (objs b ! i) = BUY then bo_id (objs b ! i)
                      else bo_id (objs b ! best)),
        sellOrderId = (if bo_side (objs b ! i) = BUY then bo_id (objs b ! best)
                       else bo_id (objs b ! i)),
        tr_price = big_toString (price (objs b ! best)),
        tr_amount = big_toString (tradeQty i best b)\<rparr>] \<and>
    big_val (tradeQty i best b) =
      min (big_val (remaining (objs b ! i))) (big_val (remaining (objs b ! best))) \<and>
    remaining (objs (match_step i best b) ! i) =
      big_minus (remaining (objs b ! i)) (tradeQty i best b) \<and>
    remaining (objs (match_step i best b) ! best) =
      big_minus (remaining (objs b ! best)) (tradeQty i best b) \<and>
    (big_eq (remaining (objs (match_step i best b) ! best)) big_zero \<longrightarrow>
       resting (match_step i best b) = resting b - {best} \<and>
       idIndex (match_step i best b) = (idIndex b)(bo_id (objs b ! best) := None)) \<and>
    (\<not> big_eq (remaining (objs (match_step i best b) ! best)) big_zero \<longrightarrow>
       bids (match_step i best b) = bids b \<and> asks (match_step i best b) = asks b \<and>
       idIndex (match_step i best b) = idIndex b)"
proof -
  from assms(1) have s: "inv_struct b" by (simp add: book_inv_def)
  note wf = fresh_match_wf[OF s assms(2)]
  note w = match_wf_best[OF wf assms(3)]
  note u = match_step_unfold[OF w(3)[symmetric] w(4) w(2)]
  note fld = step_objs_fields[OF w(3)[symmetric]]
  note sb = match_step_bookSide[OF wf assms(3)]
  let ?os = "step_objs i best b"
  let ?b3 = "b\<lparr>trades := trades b @ [make_trade i best b], objs := ?os\<rparr>"
  have s3: "inv_struct ?b3"
    by (rule inv_struct_objs_cong[OF s, where os' = ?os]) (simp_all add: fld)
  have r3: "resting ?b3 = resting b" by (simp add: resting_def)
  have br: "best \<in> resting ?b3"
    using w(1) r3 by (auto simp: bookSide_def resting_def split: if_splits)
  note rm = inv_struct_remove[OF s3 br]
  have tr: "trades (match_step i best b) = trades b @ [make_trade i best b]"
    unfolding u using rm(5) by simp
  have ri: "remaining (objs (match_step i best b) ! i) =
      big_minus (remaining (objs b ! i)) (tradeQty i best b)"
    unfolding sb(4) using step_objs_nth[OF w(3)[symmetric] w(4)] w(3) by simp
  have rb: "remaining (objs (match_step i best b) ! best) =
      big_minus (remaining (objs b ! best)) (tradeQty i best b)"
    unfolding sb(4) using step_objs_nth[OF w(3)[symmetric] w(2)] by simp
  have o: "objs (match_step i best b) = ?os" by (rule sb(4))
  have z: "big_eq (remaining (objs (match_step i best b) ! best)) big_zero \<longrightarrow>
       resting (match_step i best b) = resting b - {best} \<and>
       idIndex (match_step i best b) = (idIndex b)(bo_id (objs b ! best) := None)"
  proof
    assume "big_eq (remaining (objs (match_step i best b) ! best)) big_zero"
    then have "big_eq (remaining (?os ! best)) big_zero" by (simp add: o)
    then have "match_step i best b = remove_order best ?b3" by (simp add: u)
    with rm(2,4) r3 fld(2)[OF w(2)]
    show "resting (match_step i best b) = resting b - {best} \<and>
       idIndex (match_step i best b) = (idIndex b)(bo_id (objs b ! best) := None)"
      by simp
  qed
  have nz: "\<not> big_eq (remaining (objs (match_step i best b) ! best)) big_zero \<longrightarrow>
       bids (match_step i best b) = bids b \<and> asks (match_step i best b) = asks b \<and>
       idIndex (match_step i best b) = idIndex b"
  proof
    assume "\<not> big_eq (remaining (objs (match_step i best b) ! best)) big_zero"
    then have "\<not> big_eq (remaining (?os ! best)) big_zero" by (simp add: o)
    then have "match_step i best b = ?b3" by (simp add: u)
    then show "bids (match_step i best b) = bids b \<and> asks (match_step i best b) = asks b \<and>
       idIndex (match_step i best b) = idIndex b"
      by simp
  qed
  from match_next_Some[OF assms(3)] tr ri rb z nz show ?thesis
    by (simp add: make_trade_def tradeQty_val)
qed

theorem match_step_postcondition_witness:
  "heap_peek (bookSide 1 ex_book) = Some 0 \<and>
   trades (match_step 1 0 ex_book) =
     [\<lparr>tr_pair = ''BTC/USDC'', buyOrderId = ''2'', sellOrderId = ''1'',
       tr_price = ''100'', tr_amount = ''0.5''\<rparr>] \<and>
   remaining (objs (match_step 1 0 ex_book) ! 1) = Big 15 1 \<and>
   remaining (objs (match_step 1 0 ex_book) ! 0) = Big 0 1 \<and>
   resting (match_step 1 0 ex_book) = {} \<and>
   idIndex (match_step 1 0 ex_book) ''1'' = None"
proof -
  have s: "big_toString (Big 100 0) = ''100''" "big_toString (Big 5 (Suc 0)) = ''0.5''"
    by code_simp+
  have z: "big_eq (Big 0 (Suc 0)) big_zero" by (simp add: big_eq_def big_cmp_def big_zero_def)
  from ex_book_inv have h: "book_inv ex_book" "fresh 1 ex_book" "match_next 1 ex_book = Some 0"
    by simp_all
  have q: "tradeQty 1 0 ex_book = Big 5 1" by (simp add: ex_defs)
  have f: "objs ex_book ! 0 = ex_order ''1'' SELL (Big 100 0) (Big 5 1) 0"
    "objs ex_book ! 1 = ex_order ''2'' BUY (Big 101 0) (Big 20 1) 1"
    "trades ex_book = []" "ob_pair ex_book = ''BTC/USDC''" "resting ex_book = {0}"
    "idIndex ex_book = [''1'' \<mapsto> 0]"
    by (simp_all add: ex_book_def resting_def)
  from match_step_postcondition[OF h] show ?thesis
    unfolding q f by (simp add: ex_order_def s z big_minus_def)
qed

section \<open>CREATE with the id of a resting order\<close>

text \<open>
  Claim C9, as amended. A CREATE carries the id of an order \<open>old\<close> that rests in the book.
  When the new order has a positive remaining quantity after matching, and the matching
  has not filled \<open>old\<close> completely (its remaining quantity is still positive), then the
  index maps the id to the new order, which is another object than \<open>old\<close>, and both rest in
  the heaps under the same id. (When \<open>old\<close> rests on the opposite side and the new order
  fills it, \<open>old\<close> has left its heap before the new order is added; see the
  counterexample.)
\<close>

theorem duplicate_id_create:
  assumes inv: "book_inv b" and c: "type_op raw = CREATE"
    and pp: "big_parse (limit_price raw) = Some p" and pa: "big_parse (amount raw) = Some a"
    and old: "old \<in> resting b" "bo_id (objs b ! old) = order_id raw"
  shows "\<exists>b'. process raw b = Some (Inr b') \<and>
           (big_gt (remaining (objs b' ! length (objs b))) big_zero \<longrightarrow>
            big_gt (remaining (objs b' ! old)) big_zero \<longrightarrow>
              idIndex b' (order_id raw) = Some (length (objs b)) \<and>
              length (objs b) \<noteq> old \<and>
              old \<in> resting b' \<and> length (objs b) \<in> resting b' \<and>
              bo_id (objs b' ! old) = order_id raw \<and>
              bo_id (objs b' ! length (objs b)) = order_id raw)"
proof -
  let ?i = "length (objs b)"
  let ?o = "new_order raw p a (seq b)"
  let ?b1 = "b\<lparr>seq := seq b + 1, objs := objs b @ [?o]\<rparr>"
  let ?P = "\<lambda>b'. length (objs b') = Suc ?i \<and>
                 (\<forall>r\<le>?i. bo_id (objs b' ! r) = bo_id (objs ?b1 ! r)) \<and>
                 (\<forall>r\<in>resting b. r \<in> resting b' \<or> big_eq (remaining (objs b' ! r)) big_zero)"
  from inv have s: "inv_struct b" by (simp add: book_inv_def)
  have ov: "old < ?i" using resting_valid[OF s old(1)] .
  have "\<exists>b2. create ?o b =
               Some (if big_gt (remaining (objs b2 ! ?i)) big_zero then add ?i b2 else b2) \<and>
              book_inv b2 \<and> fresh ?i b2 \<and> match_next ?i b2 = None \<and> ?P b2"
  proof (rule create_rule[OF inv, where P = ?P])
    show "ts ?o = seq b" by (simp add: new_order_def)
    show "?P ?b1" by (simp add: resting_def)
  next
    fix b' best
    assume h: "book_inv b'" "fresh ?i b'" "?P b'" "match_next ?i b' = Some best"
    note m = match_step_summary[OF h(1,2,4)]
    note fld = step_objs_fields[OF m(8)[symmetric]]
    have len: "length (objs (match_step ?i best b')) = Suc ?i" using h(3) m(1) by simp
    have ids: "\<forall>r\<le>?i. bo_id (objs (match_step ?i best b') ! r) = bo_id (objs ?b1 ! r)"
      using h(3) fld(2)[of _ b'] unfolding m(1) by (simp add: less_Suc_eq_le)
    have rs: "\<forall>r\<in>resting b. r \<in> resting (match_step ?i best b') \<or>
                big_eq (remaining (objs (match_step ?i best b') ! r)) big_zero"
    proof
      fix r assume r: "r \<in> resting b"
      then have rl: "r < ?i" using resting_valid[OF s] by simp
      with h(3) have rl': "r < length (objs b')" by simp
      from h(3) r have c: "r \<in> resting b' \<or> big_eq (remaining (objs b' ! r)) big_zero" by blast
      show "r \<in> resting (match_step ?i best b') \<or>
            big_eq (remaining (objs (match_step ?i best b') ! r)) big_zero"
      proof (cases "r = best")
        case True
        then show ?thesis unfolding m(1,2) using c m(7) by (auto split: if_splits)
      next
        case False
        then have "step_objs ?i best b' ! r = objs b' ! r"
          using step_objs_nth[OF m(8)[symmetric] rl'] rl by simp
        with False c show ?thesis unfolding m(1,2) by auto
      qed
    qed
    from len ids rs show "?P (match_step ?i best b')" by simp
  qed
  then obtain b2 where cr: "create ?o b =
               Some (if big_gt (remaining (objs b2 ! ?i)) big_zero then add ?i b2 else b2)"
    and i2: "book_inv b2" and f2: "fresh ?i b2" and n2: "match_next ?i b2 = None"
    and P2: "?P b2" by blast
  let ?b' = "if big_gt (remaining (objs b2 ! ?i)) big_zero then add ?i b2 else b2"
  have pr: "process raw b = Some (Inr ?b')"
    using process_CREATE[OF c pp pa, of b] cr by simp
  have "idIndex ?b' (order_id raw) = Some ?i \<and> ?i \<noteq> old \<and>
        old \<in> resting ?b' \<and> ?i \<in> resting ?b' \<and>
        bo_id (objs ?b' ! old) = order_id raw \<and> bo_id (objs ?b' ! ?i) = order_id raw"
    if g: "big_gt (remaining (objs ?b' ! ?i)) big_zero"
      and go: "big_gt (remaining (objs ?b' ! old)) big_zero"
  proof -
    have pos: "big_gt (remaining (objs b2 ! ?i)) big_zero"
      using g by (auto split: if_splits)
    note ad = book_inv_add[OF i2 f2 n2 pos]
    have b': "?b' = add ?i b2" using pos by simp
    have idi: "bo_id (objs b2 ! ?i) = order_id raw" using P2 by (simp add: new_order_def)
    have ido: "bo_id (objs b2 ! old) = order_id raw"
      using P2 ov old(2) by (simp add: nth_append)
    have "big_gt (remaining (objs b2 ! old)) big_zero" using go unfolding b' ad(3) .
    then have "\<not> big_eq (remaining (objs b2 ! old)) big_zero"
      by (simp add: big_gt_val big_eq_val)
    with P2 old(1) have "old \<in> resting b2" by blast
    with ov idi ido show ?thesis unfolding b' ad(2,3,4) by simp
  qed
  with pr show ?thesis by blast
qed

theorem duplicate_id_create_witness:
  "idIndex (projr (the (process (ex_cmd CREATE SELL ''1'' ''105'' ''1'') ex_rest))) ''1'' = Some 1 \<and>
   0 \<in> resting (projr (the (process (ex_cmd CREATE SELL ''1'' ''105'' ''1'') ex_rest))) \<and>
   1 \<in> resting (projr (the (process (ex_cmd CREATE SELL ''1'' ''105'' ''1'') ex_rest))) \<and>
   bo_id (objs (projr (the (process (ex_cmd CREATE SELL ''1'' ''105'' ''1'') ex_rest))) ! 0) = ''1'' \<and>
   bo_id (objs (projr (the (process (ex_cmd CREATE SELL ''1'' ''105'' ''1'') ex_rest))) ! 1) = ''1''"
proof -
  let ?raw = "ex_cmd CREATE SELL ''1'' ''105'' ''1''"
  have p: "big_parse (limit_price ?raw) = Some (Big 105 0)"
    "big_parse (amount ?raw) = Some (Big 1 0)"
    unfolding ex_cmd_def by code_simp+
  have h: "type_op ?raw = CREATE" "0 \<in> resting ex_rest"
    "bo_id (objs ex_rest ! 0) = order_id ?raw" "length (objs ex_rest) = 1" "order_id ?raw = ''1''"
    by (simp_all add: ex_cmd_def ex_rest_def resting_def ex_order_def)
  from duplicate_id_create[OF ex_rest_inv h(1) p h(2,3)] obtain b' where
    b': "process ?raw ex_rest = Some (Inr b')"
    and c: "big_gt (remaining (objs b' ! 1)) big_zero \<longrightarrow>
            big_gt (remaining (objs b' ! 0)) big_zero \<longrightarrow>
              idIndex b' ''1'' = Some 1 \<and> 1 \<noteq> (0::nat) \<and> 0 \<in> resting b' \<and> 1 \<in> resting b' \<and>
              bo_id (objs b' ! 0) = ''1'' \<and> bo_id (objs b' ! 1) = ''1''"
    unfolding h(4,5) by auto
  from ex_dup_same_side b' have "remaining (objs b' ! 1) = Big 1 0" "remaining (objs b' ! 0) = Big 5 1"
    by simp_all
  then have "big_gt (remaining (objs b' ! 1)) big_zero" "big_gt (remaining (objs b' ! 0)) big_zero"
    by (simp_all add: big_gt_def big_cmp_def big_zero_def)
  with c b' show ?thesis by simp
qed

theorem duplicate_id_create_counterexample:
  "0 \<in> resting ex_rest \<and>
   bo_id (objs ex_rest ! 0) = order_id (ex_cmd CREATE BUY ''1'' ''100'' ''2'') \<and>
   process (ex_cmd CREATE BUY ''1'' ''100'' ''2'') ex_rest =
     Some (Inr (projr (the (process (ex_cmd CREATE BUY ''1'' ''100'' ''2'') ex_rest)))) \<and>
   big_gt (remaining (objs (projr (the (process (ex_cmd CREATE BUY ''1'' ''100'' ''2'') ex_rest))) ! 1))
     big_zero \<and>
   0 \<notin> resting (projr (the (process (ex_cmd CREATE BUY ''1'' ''100'' ''2'') ex_rest)))"
proof -
  let ?raw = "ex_cmd CREATE BUY ''1'' ''100'' ''2''"
  from map_option_sum_InrD[OF ex_dup_crossing]
  obtain b' where b': "process ?raw ex_rest = Some (Inr b')"
    and f: "bids b' = [1]" "asks b' = []" "remaining (objs b' ! 1) = Big 15 1"
    by auto
  have "big_gt (Big 15 1) big_zero" by (simp add: big_gt_def big_cmp_def big_zero_def)
  with b' f show ?thesis
    by (simp add: resting_def ex_rest_def ex_cmd_def ex_order_def)
qed

section \<open>FIFO at equal price\<close>

text \<open>
  Claim C4, for an order A whose amount is not negative. The engine has run the stream \<open>pre\<close>
  and receives the CREATE command \<open>raw\<close>; \<open>b\<close> is the book of its pair, \<open>i\<close> the address of
  the incoming order, and \<open>s\<close> the state after \<open>n\<close> iterations of the loop of \<^verbatim>\<open>match\<close>, in
  which the loop goes on to trade the incoming order with the best resting order \<open>best\<close>:
  that trade is among the trades of the book once the engine has processed \<open>raw\<close>. Let B
  be either party \<open>x\<close> of the trade, and A the CREATE command number \<open>a\<close> of the pair, earlier
  than B in the stream, of the same side, with a limit price of the same value and an
  amount that is not negative. Then A is not resting in \<open>s\<close>, and its remaining quantity is zero or a
  DELETE command of \<open>pre\<close> has removed it from the book: at equal price the earlier order
  is consumed before the later one trades, whatever the sizes.

  The amount of A must not be negative. In the stream \<open>ex_neg\<close> the first buy order has the
  amount -1: it never rests, its remaining quantity stays -1 and no DELETE names it, and
  the second buy order, at the same price, trades with the sell order.
\<close>

theorem fifo_at_equal_price:
  assumes run: "ingest_all pre newMatcherEngine = Some (Inr e)"
    and c: "type_op raw = CREATE" and pp: "big_parse (limit_price raw) = Some pr"
    and pq: "big_parse (amount raw) = Some am"
    and b: "b = book_of e (pair raw)" and i: "i = length (objs b)"
    and s: "s = match_steps n i (b\<lparr>seq := seq b + 1,
                                   objs := objs b @ [new_order raw pr am (seq b)]\<rparr>)"
    and nx: "match_next i s = Some best"
    and cs: "cs = creates (for_pair (pair raw) (pre @ [raw]))"
    and x: "x = i \<or> x = best" and ax: "a < x"
    and sd: "side (cs ! a) = side (cs ! x)"
    and pa: "big_parse (limit_price (cs ! a)) = Some pa"
    and px: "big_parse (limit_price (cs ! x)) = Some px"
    and pe: "big_eq pa px"
    and qa: "big_parse (amount (cs ! a)) = Some qa" and pos: "big_gte qa big_zero"
  shows "(\<exists>e'. ingest raw e = Some (Inr e') \<and>
               make_trade i best s \<in> set (trades (book_of e' (pair raw)))) \<and>
         a \<notin> resting s \<and>
         (big_eq (remaining (objs s ! a)) big_zero \<or>
          a \<in> set (deleted (for_pair (pair raw) pre) (newOrderBook (pair raw))))"
proof -
  let ?p = "pair raw"
  let ?rs = "for_pair ?p pre"
  let ?o = "new_order raw pr am (seq b)"
  let ?b1 = "b\<lparr>seq := seq b + 1, objs := objs b @ [?o]\<rparr>"
  from ingest_all_book_of[OF run, of ?p]
  have pall: "process_all ?rs (newOrderBook ?p) = Some (Inr b)" by (simp add: b)
  note h = hist_inv_run[OF pall]
  note st = settled_run[OF pall]
  have t: "ts ?o = seq b" by (simp add: new_order_def)
  note al = book_inv_alloc[OF h(3) t]
  have fr1: "fresh i ?b1" using al(2) by (simp add: i)
  have k1: "keeps b am i ?b1" using keeps_init[OF h(3), of ?o] by (simp add: i new_order_def)
  have ks: "book_inv s \<and> fresh i s \<and> keeps b am i s"
    unfolding s
  proof (rule match_steps_rule[where P = "keeps b am i", OF _ al(1) fr1 k1])
    fix b' best
    assume "book_inv b'" "fresh i b'" "keeps b am i b'" "match_next i b' = Some best"
    then show "keeps b am i (match_step i best b')" using keeps_step[OF h(3) i] by blast
  qed
  have "fills_inv ?b1 i [] ?b1" by (simp add: fills_inv_def i)
  then have f1: "\<exists>fills. fills_inv ?b1 i fills ?b1" by blast
  have fs: "book_inv s \<and> fresh i s \<and> (\<exists>fills. fills_inv ?b1 i fills s)"
    unfolding s
  proof (rule match_steps_rule[where P = "\<lambda>b'. \<exists>fills. fills_inv ?b1 i fills b'", OF _ al(1) fr1 f1])
    fix b' best
    assume "book_inv b'" "fresh i b'" "\<exists>fills. fills_inv ?b1 i fills b'"
      "match_next i b' = Some best"
    with fills_inv_step[of b' i best ?b1]
    show "\<exists>fills. fills_inv ?b1 i fills (match_step i best b')" by blast
  qed
  from ks have invs: "book_inv s" and frs: "fresh i s" and k: "keeps b am i s" by simp_all
  from fs have so: "\<And>r. r \<le> i \<Longrightarrow> same_order (objs s ! r) (objs ?b1 ! r)"
    unfolding fills_inv_def by blast
  from k have len: "length (objs s) = Suc i"
    and rs: "\<And>r. r \<in> resting b \<Longrightarrow> r \<in> resting s \<or> big_eq (remaining (objs s ! r)) big_zero"
    and un: "\<And>r. r < i \<Longrightarrow> r \<notin> resting b \<Longrightarrow> remaining (objs s ! r) = remaining (objs b ! r)"
    unfolding keeps_def by blast+
  note m = match_step_summary[OF invs frs nx]
  have bi: "best < i" using m(8,9) len by simp
  with x have xi: "x \<le> i" by auto
  with ax have ai: "a < i" by simp
  from h(1) have hl: "length (objs b) = length (creates ?rs)"
    and ob: "\<And>r. r < length (objs b) \<Longrightarrow>
         bo_side (objs b ! r) = side (creates ?rs ! r) \<and>
         big_parse (limit_price (creates ?rs ! r)) = Some (price (objs b ! r))"
    unfolding hist_inv_def by blast+
  have cse: "cs = creates ?rs @ [raw]"
    unfolding cs for_pair_snoc using c by (simp add: creates_snoc)
  have fields: "bo_side (objs s ! r) = side (cs ! r) \<and>
                big_parse (limit_price (cs ! r)) = Some (price (objs s ! r))"
    if r: "r \<le> i" for r
  proof (cases "r < i")
    case True
    with so[OF r] ob[of r] hl i show ?thesis
      unfolding cse by (simp add: same_order_def nth_append)
  next
    case False
    with r have "r = i" by simp
    with so[of i] hl i pp show ?thesis
      unfolding cse by (simp add: same_order_def nth_append new_order_def)
  qed
  from invs have "inv_ts s" by (simp add: book_inv_def)
  then have tsr: "\<And>r. r \<le> i \<Longrightarrow> ts (objs s ! r) = r" using len by (simp add: inv_ts_def)
  have al': "a \<le> i" using ai by simp
  have "ts (objs s ! a) < ts (objs s ! x)" using tsr[OF al'] tsr[OF xi] ax by simp
  moreover have "big_eq (price (objs s ! a)) (price (objs s ! x))"
    using fields[OF al'] fields[OF xi] pa px pe by simp
  moreover have "bo_side (objs s ! a) = bo_side (objs s ! x)"
    using fields[OF al'] fields[OF xi] sd by simp
  ultimately have nr: "a \<notin> resting s" using heap_best_first[OF invs frs nx x] by blast
  have ca: "cs ! a = creates ?rs ! a" unfolding cse using ai hl i by (simp add: nth_append)
  from st ai i have "a \<in> resting b \<or> a \<in> set (deleted ?rs (newOrderBook ?p)) \<or>
      big_eq (remaining (objs b ! a)) big_zero \<or>
      (\<exists>q. big_parse (amount (creates ?rs ! a)) = Some q \<and> big_lt q big_zero)"
    by (simp add: settled_def)
  moreover have "\<not> (\<exists>q. big_parse (amount (creates ?rs ! a)) = Some q \<and> big_lt q big_zero)"
    using qa pos ca by (auto simp: big_gte_val big_lt_val)
  ultimately have "big_eq (remaining (objs s ! a)) big_zero \<or>
      a \<in> set (deleted ?rs (newOrderBook ?p))"
    using rs[of a] un[OF ai] nr by (cases "a \<in> resting b") auto
  moreover have "\<exists>e'. ingest raw e = Some (Inr e') \<and>
               make_trade i best s \<in> set (trades (book_of e' ?p))"
  proof -
    from match_book_inv[OF al(1) fr1] obtain b2 where m2: "match i ?b1 = Some b2" by blast
    from match_steps_trade[OF al(1) fr1 m2 nx[unfolded s]]
    have tr: "make_trade i best s \<in> set (trades b2)" by (simp add: s)
    let ?b' = "if big_gt (remaining (objs b2 ! i)) big_zero then add i b2 else b2"
    have "create ?o b = Some ?b'" using m2 by (simp add: create_def Let_def i)
    then have "process raw (book_of e ?p) = Some (Inr ?b')"
      using process_CREATE[OF c pp pq, of b] by (simp add: b)
    from ingest_process[OF this] obtain e' where
      e': "ingest raw e = Some (Inr e')" "book_of e' ?p = ?b'" by blast
    have "trades ?b' = trades b2" by (simp add: add_def Let_def)
    with tr e' show ?thesis by auto
  qed
  ultimately show ?thesis using nr by blast
qed

theorem fifo_at_equal_price_witness:
  "\<exists>e s. ingest_all ex_fifo_pre newMatcherEngine = Some (Inr e) \<and>
     s = match_steps 1 2 ((book_of e ''BTC/USDC'')\<lparr>seq := 3,
           objs := objs (book_of e ''BTC/USDC'') @ [new_order ex_fifo_cmd (Big 100 0) (Big 1 0) 2]\<rparr>) \<and>
     match_next 2 s = Some 1 \<and>
     (\<exists>e'. ingest ex_fifo_cmd e = Some (Inr e') \<and>
           make_trade 2 1 s \<in> set (trades (book_of e' ''BTC/USDC''))) \<and>
     0 \<notin> resting s \<and> big_eq (remaining (objs s ! 0)) big_zero"
proof -
  let ?p = "''BTC/USDC''"
  from map_option_sum_InrD[OF ex_fifo_run] obtain e where
    r: "ingest_all ex_fifo_pre newMatcherEngine = Some (Inr e)"
    and l: "length (objs (book_of e ?p)) = 2" "seq (book_of e ?p) = 2"
    and n: "match_next 2 (match_steps 1 2 ((book_of e ?p)\<lparr>seq := 3,
          objs := objs (book_of e ?p) @ [new_order ex_fifo_cmd (Big 100 0) (Big 1 0) 2]\<rparr>)) = Some 1"
    and z: "remaining (objs (match_steps 1 2 ((book_of e ?p)\<lparr>seq := 3,
          objs := objs (book_of e ?p) @ [new_order ex_fifo_cmd (Big 100 0) (Big 1 0) 2]\<rparr>)) ! 0) = Big 0 1"
    by auto
  let ?s = "match_steps 1 2 ((book_of e ?p)\<lparr>seq := 3,
          objs := objs (book_of e ?p) @ [new_order ex_fifo_cmd (Big 100 0) (Big 1 0) 2]\<rparr>)"
  have p: "big_parse ''100'' = Some (Big 100 0)" "big_parse ''1'' = Some (Big 1 0)"
    "big_parse ''0.5'' = Some (Big 5 1)"
    by code_simp+
  have g: "big_eq (Big 100 0) (Big 100 0)" "big_gte (Big 5 1) big_zero"
    by (simp_all add: big_eq_def big_gte_def big_cmp_def big_zero_def)
  have cs: "creates (for_pair (pair ex_fifo_cmd) (ex_fifo_pre @ [ex_fifo_cmd])) =
            ex_fifo_pre @ [ex_fifo_cmd]"
    by (simp add: creates_def for_pair_def ex_fifo_pre_def ex_fifo_cmd_def ex_cmd_def)
  have "(\<exists>e'. ingest ex_fifo_cmd e = Some (Inr e') \<and>
               make_trade 2 1 ?s \<in> set (trades (book_of e' (pair ex_fifo_cmd)))) \<and>
         0 \<notin> resting ?s \<and>
         (big_eq (remaining (objs ?s ! 0)) big_zero \<or>
          0 \<in> set (deleted (for_pair (pair ex_fifo_cmd) ex_fifo_pre) (newOrderBook (pair ex_fifo_cmd))))"
  proof (rule fifo_at_equal_price[OF r, where raw = ex_fifo_cmd and pr = "Big 100 0"
        and am = "Big 1 0" and n = 1 and i = 2 and best = 1 and x = 1 and pa = "Big 100 0"
        and px = "Big 100 0" and qa = "Big 5 1" and b = "book_of e ?p"])
    show "type_op ex_fifo_cmd = CREATE" by (simp add: ex_fifo_cmd_def ex_cmd_def)
    show "big_parse (limit_price ex_fifo_cmd) = Some (Big 100 0)"
      "big_parse (amount ex_fifo_cmd) = Some (Big 1 0)"
      by (simp_all add: ex_fifo_cmd_def ex_cmd_def p)
    show "book_of e ?p = book_of e (pair ex_fifo_cmd)" by (simp add: ex_fifo_cmd_def ex_cmd_def)
    show "2 = length (objs (book_of e ?p))" using l by simp
    show "?s = match_steps 1 2 ((book_of e ?p)\<lparr>seq := seq (book_of e ?p) + 1,
            objs := objs (book_of e ?p) @
              [new_order ex_fifo_cmd (Big 100 0) (Big 1 0) (seq (book_of e ?p))]\<rparr>)"
      using l by simp
    show "match_next 2 ?s = Some 1" by (rule n)
    show "ex_fifo_pre @ [ex_fifo_cmd] =
          creates (for_pair (pair ex_fifo_cmd) (ex_fifo_pre @ [ex_fifo_cmd]))"
      by (simp add: cs)
    show "(1::nat) = 2 \<or> (1::nat) = 1" by simp
    show "(0::nat) < 1" by simp
    show "side ((ex_fifo_pre @ [ex_fifo_cmd]) ! 0) = side ((ex_fifo_pre @ [ex_fifo_cmd]) ! 1)"
      by (simp add: ex_fifo_pre_def ex_cmd_def)
    show "big_parse (limit_price ((ex_fifo_pre @ [ex_fifo_cmd]) ! 0)) = Some (Big 100 0)"
      "big_parse (limit_price ((ex_fifo_pre @ [ex_fifo_cmd]) ! 1)) = Some (Big 100 0)"
      "big_parse (amount ((ex_fifo_pre @ [ex_fifo_cmd]) ! 0)) = Some (Big 5 1)"
      by (simp_all add: ex_fifo_pre_def ex_cmd_def p)
    show "big_eq (Big 100 0) (Big 100 0)" "big_gte (Big 5 1) big_zero" by (rule g)+
  qed
  moreover have "big_eq (Big 0 1) big_zero" by (simp add: big_eq_def big_cmp_def big_zero_def)
  moreover have "pair ex_fifo_cmd = ''BTC/USDC''" by (simp add: ex_fifo_cmd_def ex_cmd_def)
  ultimately show ?thesis using r n z by auto
qed

theorem fifo_at_equal_price_counterexample:
  "ingest_all ex_neg newMatcherEngine =
     Some (Inr (projr (the (ingest_all ex_neg newMatcherEngine)))) \<and>
   type_op (ex_neg ! 0) = CREATE \<and> type_op (ex_neg ! 1) = CREATE \<and>
   side (ex_neg ! 0) = side (ex_neg ! 1) \<and> pair (ex_neg ! 0) = pair (ex_neg ! 1) \<and>
   limit_price (ex_neg ! 0) = limit_price (ex_neg ! 1) \<and>
   order_id (ex_neg ! 0) = ''1'' \<and> order_id (ex_neg ! 1) = ''2'' \<and>
   trades (book_of (projr (the (ingest_all ex_neg newMatcherEngine))) ''BTC/USDC'') =
     [\<lparr>tr_pair = ''BTC/USDC'', buyOrderId = ''2'', sellOrderId = ''3'',
       tr_price = ''100'', tr_amount = ''1''\<rparr>] \<and>
   bo_id (objs (book_of (projr (the (ingest_all ex_neg newMatcherEngine))) ''BTC/USDC'') ! 0) = ''1'' \<and>
   remaining (objs (book_of (projr (the (ingest_all ex_neg newMatcherEngine))) ''BTC/USDC'') ! 0) =
     Big (- 1) 0 \<and>
   \<not> big_eq (Big (- 1) 0) big_zero \<and>
   deleted ex_neg (newOrderBook ''BTC/USDC'') = []"
proof -
  from map_option_sum_InrD[OF ex_neg_run] obtain e where
    r: "ingest_all ex_neg newMatcherEngine = Some (Inr e)"
    and m: "map (\<lambda>(p, b). (p, bids b, asks b, trades b, map bo_id (objs b), map remaining (objs b)))
              (books e) =
            [(''BTC/USDC'', [], [],
              [\<lparr>tr_pair = ''BTC/USDC'', buyOrderId = ''2'', sellOrderId = ''3'',
                tr_price = ''100'', tr_amount = ''1''\<rparr>],
              [''1'', ''2'', ''3''], [Big (- 1) 0, Big 0 0, Big 0 0])]"
    by auto
  from m obtain b where be: "books e = [(''BTC/USDC'', b)]"
    and f: "trades b = [\<lparr>tr_pair = ''BTC/USDC'', buyOrderId = ''2'', sellOrderId = ''3'',
                tr_price = ''100'', tr_amount = ''1''\<rparr>]"
    "map bo_id (objs b) = [''1'', ''2'', ''3'']"
    "map remaining (objs b) = [Big (- 1) 0, Big 0 0, Big 0 0]"
    by auto
  have bo: "book_of e ''BTC/USDC'' = b" using be by (simp add: book_of_def)
  from f(2) have i0: "bo_id (objs b ! 0) = ''1''" by (auto simp: map_eq_Cons_conv)
  from f(3) have r0: "remaining (objs b ! 0) = Big (- 1) 0" by (auto simp: map_eq_Cons_conv)
  have ne: "\<not> big_eq (Big (- 1) 0) big_zero" by (simp add: big_eq_def big_cmp_def big_zero_def)
  show ?thesis
    using r bo f(1) i0 r0 ne ex_neg_deleted by (simp add: ex_neg_def ex_cmd_def)
qed

section \<open>The price of a trade\<close>

text \<open>
  Claim C3. Every command stream runs to its end, and every trade the engine then reports
  is between two CREATE commands \<open>m\<close> and \<open>k\<close> of the pair of the trade, of opposite sides,
  \<open>m\<close> before \<open>k\<close> in the stream: the earlier one is the resting order (the maker), the later
  one the incoming order (the taker). The price of the trade is the string of the parsed
  limit price of \<open>m\<close>, and the buy and sell ids are the ids of the two commands according to
  their sides.
\<close>

theorem price_goes_to_maker:
  "\<exists>res. ingest_all raws newMatcherEngine = Some res \<and>
     (\<forall>e t. res = Inr e \<longrightarrow> t \<in> set (snd (finish e)) \<longrightarrow>
        (\<exists>k<length (creates (for_pair (tr_pair t) raws)). \<exists>m<k. \<exists>pm.
           side (creates (for_pair (tr_pair t) raws) ! m) \<noteq>
             side (creates (for_pair (tr_pair t) raws) ! k) \<and>
           big_parse (limit_price (creates (for_pair (tr_pair t) raws) ! m)) = Some pm \<and>
           tr_price t = big_toString pm \<and>
           buyOrderId t =
             order_id (creates (for_pair (tr_pair t) raws) !
                         (if side (creates (for_pair (tr_pair t) raws) ! k) = BUY then k else m)) \<and>
           sellOrderId t =
             order_id (creates (for_pair (tr_pair t) raws) !
                         (if side (creates (for_pair (tr_pair t) raws) ! k) = BUY then m else k))))"
proof -
  from ingest_all_total[OF eng_inv_new, of raws] obtain res where
    r: "ingest_all raws newMatcherEngine = Some res" by blast
  have "\<exists>k<length (creates (for_pair (tr_pair t) raws)). \<exists>m<k. \<exists>pm.
           side (creates (for_pair (tr_pair t) raws) ! m) \<noteq>
             side (creates (for_pair (tr_pair t) raws) ! k) \<and>
           big_parse (limit_price (creates (for_pair (tr_pair t) raws) ! m)) = Some pm \<and>
           tr_price t = big_toString pm \<and>
           buyOrderId t =
             order_id (creates (for_pair (tr_pair t) raws) !
                         (if side (creates (for_pair (tr_pair t) raws) ! k) = BUY then k else m)) \<and>
           sellOrderId t =
             order_id (creates (for_pair (tr_pair t) raws) !
                         (if side (creates (for_pair (tr_pair t) raws) ! k) = BUY then m else k))"
    if e: "res = Inr e" and t: "t \<in> set (snd (finish e))" for e t
  proof -
    from t obtain p b where pb: "(p, b) \<in> set (books e)" and tb: "t \<in> set (trades b)"
      unfolding finish_trades by blast
    from ingest_all_books[of raws e p b] r e pb
    have run: "process_all (for_pair p raws) (newOrderBook p) = Some (Inr b)" by simp
    note h = hist_inv_run[OF run]
    let ?cs = "creates (for_pair p raws)"
    from h(1) have len: "length (objs b) = length ?cs"
      and ob: "\<And>r. r < length (objs b) \<Longrightarrow>
         bo_id (objs b ! r) = order_id (?cs ! r) \<and>
         bo_side (objs b ! r) = side (?cs ! r) \<and>
         big_parse (limit_price (?cs ! r)) = Some (price (objs b ! r))"
      and ok: "ok_trade b t"
      using tb unfolding hist_inv_def by blast+
    from ok obtain k m where km: "k < length (objs b)" "m < k"
      and f: "tr_pair t = ob_pair b"
      "bo_side (objs b ! m) \<noteq> bo_side (objs b ! k)"
      "tr_price t = big_toString (price (objs b ! m))"
      "buyOrderId t = bo_id (objs b ! (if bo_side (objs b ! k) = BUY then k else m))"
      "sellOrderId t = bo_id (objs b ! (if bo_side (objs b ! k) = BUY then m else k))"
      unfolding ok_trade_def by blast
    from km have ml: "m < length (objs b)" by simp
    have tp: "tr_pair t = p" using f(1) h(2) by simp
    show ?thesis
      unfolding tp
    proof (intro exI conjI)
      show "k < length ?cs" using km(1) len by simp
      show "m < k" by fact
      show "side (?cs ! m) \<noteq> side (?cs ! k)" using f(2) ob[OF km(1)] ob[OF ml] by simp
      show "big_parse (limit_price (?cs ! m)) = Some (price (objs b ! m))" using ob[OF ml] by simp
      show "tr_price t = big_toString (price (objs b ! m))" by fact
      show "buyOrderId t = order_id (?cs ! (if side (?cs ! k) = BUY then k else m))"
        using f(4) ob[OF km(1)] ob[OF ml] by simp
      show "sellOrderId t = order_id (?cs ! (if side (?cs ! k) = BUY then m else k))"
        using f(5) ob[OF km(1)] ob[OF ml] by simp
    qed
  qed
  with r show ?thesis by blast
qed

theorem price_goes_to_maker_witness:
  "\<exists>e pm. ingest_all ex_stream newMatcherEngine = Some (Inr e) \<and>
     \<lparr>tr_pair = ''BTC/USDC'', buyOrderId = ''3'', sellOrderId = ''1'',
      tr_price = ''100'', tr_amount = ''0.2''\<rparr> \<in> set (snd (finish e)) \<and>
     (\<exists>k<length (creates (for_pair ''BTC/USDC'' ex_stream)). \<exists>m<k.
        big_parse (limit_price (creates (for_pair ''BTC/USDC'' ex_stream) ! m)) = Some pm \<and>
        ''100'' = big_toString pm)"
proof -
  let ?t = "\<lparr>tr_pair = ''BTC/USDC'', buyOrderId = ''3'', sellOrderId = ''1'',
      tr_price = ''100'', tr_amount = ''0.2''\<rparr>"
  from ex_stream_result obtain e b where
    r: "ingest_all ex_stream newMatcherEngine = Some (Inr e)"
    "books e = [(''BTC/USDC'', b)]" "trades b = [?t]"
    by blast
  have m: "?t \<in> set (snd (finish e))" using r(2,3) by (simp add: finish_def)
  from price_goes_to_maker[of ex_stream] r(1) m
  have "\<exists>k<length (creates (for_pair ''BTC/USDC'' ex_stream)). \<exists>m<k. \<exists>pm.
        big_parse (limit_price (creates (for_pair ''BTC/USDC'' ex_stream) ! m)) = Some pm \<and>
        ''100'' = big_toString pm"
    by fastforce
  with r(1) m show ?thesis by blast
qed

section \<open>Conservation of quantity\<close>




section \<open>Decimal strings in the output\<close>



end
